theory Spec2Isabelle
  imports Complex_Main "HOL-Library.Char_ord" "HOL-Library.List_Lexorder"
begin

section \<open>Python values and failures\<close>

text \<open>
  The scripts of the repository are Python. A raised exception or a call of
  \<^verbatim>\<open>sys.exit\<close> is a value of the type \<open>error\<close>; a function that can fail returns
  \<open>error + 'a\<close> with \<open>Inl\<close> for the failure.
\<close>

datatype error =
    ValueError
  | OverflowError
  | OSError
  | ZeroDivisionError
  | AttributeError
  | TypeError
  | KeyError
  | IndexError
  | FileNotFoundError
  | RequestException
  | SystemExit int

section \<open>Batch partitioning\<close>

text \<open>
  \<^verbatim>\<open>for i in range(0, len(remaining), batch_size):\<close>
  \<^verbatim>\<open>    batch = remaining[i : i + batch_size]\<close>
  (\<^verbatim>\<open>cmd_scrape\<close> in apify\_to\_report.py, \<^verbatim>\<open>cmd_comments\<close> in apify\_scrape.py).
  \<open>range3 i n step\<close> is Python's \<^verbatim>\<open>range(i, n, step)\<close> for a positive step; \<open>py_range\<close>
  adds what \<^verbatim>\<open>range(0, n, step)\<close> does for the other steps: a zero step raises
  ValueError and a negative step gives the empty range, \<open>n\<close> being a length.
\<close>

function range3 :: "nat \<Rightarrow> nat \<Rightarrow> nat \<Rightarrow> nat list" where
  "range3 i n step = (if step = 0 \<or> n \<le> i then [] else i # range3 (i + step) n step)"
  by pat_completeness auto
termination
  by (relation "measure (\<lambda>(i, n, step). n - i)") auto

declare range3.simps [simp del]

definition py_range :: "nat \<Rightarrow> int \<Rightarrow> error + nat list" where
  "py_range n step =
     (if step = 0 then Inl ValueError
      else if step < 0 then Inr []
      else Inr (range3 0 n (nat step)))"

text \<open>
  The slice \<^verbatim>\<open>xs[i : j]\<close> for a start \<open>i \<ge> 0\<close>: a negative end counts from the end
  of the list, an end beyond the list is clipped, and an end before the start gives
  the empty list.
\<close>

definition slice :: "'a list \<Rightarrow> nat \<Rightarrow> int \<Rightarrow> 'a list" where
  "slice xs i j =
     (let n = int (length xs);
          hi = (if j < 0 then max 0 (n + j) else min j n)
      in take (nat hi - i) (drop i xs))"

text \<open>
  \<^verbatim>\<open>total_batches = (len(remaining) + batch_size - 1) // batch_size\<close>; Python's
  \<^verbatim>\<open>//\<close> rounds towards minus infinity, as \<open>div\<close> on \<open>int\<close> does, and raises on a
  zero divisor.
\<close>

definition total_batches :: "nat \<Rightarrow> int \<Rightarrow> error + int" where
  "total_batches n b =
     (if b = 0 then Inl ZeroDivisionError else Inr ((int n + b - 1) div b))"

text \<open>The batches the loop submits, in the order of submission.\<close>

definition batches :: "int \<Rightarrow> 'a list \<Rightarrow> error + 'a list list" where
  "batches b xs =
     (case py_range (length xs) b of
        Inl e \<Rightarrow> Inl e
      | Inr starts \<Rightarrow> Inr (map (\<lambda>i. slice xs i (int i + b)) starts))"

section \<open>JSON documents\<close>

text \<open>
  What \<^verbatim>\<open>json.load\<close> returns. An object is the dict that it builds, as the list of
  its items in their order, with pairwise different keys, looked up with \<open>map_of\<close>.
  A float is taken with its real value (the scripts only test floats for zero).
\<close>

datatype json =
    JNull
  | JBool bool
  | JInt int
  | JFloat real
  | JStr string
  | JList "json list"
  | JObj "(string \<times> json) list"

type_synonym dict = "(string \<times> json) list"

text \<open>Python's truth value of a JSON value, as tested by \<^verbatim>\<open>if x\<close>, \<^verbatim>\<open>not x\<close> and \<^verbatim>\<open>x or y\<close>.\<close>

fun truthy :: "json \<Rightarrow> bool" where
  "truthy JNull = False"
| "truthy (JBool b) = b"
| "truthy (JInt n) = (n \<noteq> 0)"
| "truthy (JFloat x) = (x \<noteq> 0)"
| "truthy (JStr s) = (s \<noteq> [])"
| "truthy (JList xs) = (xs \<noteq> [])"
| "truthy (JObj kvs) = (kvs \<noteq> [])"

text \<open>\<^verbatim>\<open>a or b\<close> is \<open>a\<close> itself when \<open>a\<close> is true, and \<open>b\<close> otherwise.\<close>

definition py_or :: "json \<Rightarrow> json \<Rightarrow> json" where
  "py_or a b = (if truthy a then a else b)"

text \<open>\<^verbatim>\<open>d.get(k)\<close>, \<^verbatim>\<open>d.get(k, dflt)\<close> and \<^verbatim>\<open>d[k]\<close> on a dict.\<close>

definition get :: "dict \<Rightarrow> string \<Rightarrow> json" where
  "get d k = (case map_of d k of None \<Rightarrow> JNull | Some v \<Rightarrow> v)"

definition get_default :: "dict \<Rightarrow> string \<Rightarrow> json \<Rightarrow> json" where
  "get_default d k dflt = (case map_of d k of None \<Rightarrow> dflt | Some v \<Rightarrow> v)"

definition getitem :: "dict \<Rightarrow> string \<Rightarrow> error + json" where
  "getitem d k = (case map_of d k of None \<Rightarrow> Inl KeyError | Some v \<Rightarrow> Inr v)"

text \<open>Lists and dicts cannot be members of a Python set.\<close>

fun hashable :: "json \<Rightarrow> bool" where
  "hashable (JList xs) = False"
| "hashable (JObj kvs) = False"
| "hashable v = True"

section \<open>Resume tracker\<close>

text \<open>
  \<^verbatim>\<open>load_already_scraped\<close> of apify\_to\_report.py. The raw results file is \<open>None\<close> when
  it does not exist, and then nothing has been scraped:
  \<^verbatim>\<open>scraped = {entry["username"] for entry in data if entry.get("username")}\<close>
\<close>

definition load_already_scraped :: "dict list option \<Rightarrow> error + json set" where
  "load_already_scraped raw_file =
     (case raw_file of
        None \<Rightarrow> Inr {}
      | Some data \<Rightarrow>
          (let named = filter (\<lambda>entry. truthy (get entry ''username'')) data
           in if \<forall>entry \<in> set named. hashable (get entry ''username'')
              then Inr (set (map (\<lambda>entry. get entry ''username'') named))
              else Inl TypeError))"

text \<open>
  \<^verbatim>\<open>remaining = [u for u in all_usernames if u not in already_scraped]\<close>
  (\<^verbatim>\<open>cmd_scrape\<close>). The comprehension is the loop that appends each kept element to
  the list built so far. A username is a string, equal in Python to no value of
  another type.
\<close>

fun remaining_loop :: "string list \<Rightarrow> json set \<Rightarrow> string list \<Rightarrow> string list" where
  "remaining_loop [] scraped acc = acc"
| "remaining_loop (u # us) scraped acc =
     (if JStr u \<notin> scraped then remaining_loop us scraped (acc @ [u])
      else remaining_loop us scraped acc)"

definition remaining :: "string list \<Rightarrow> json set \<Rightarrow> string list" where
  "remaining all_usernames already_scraped =
     remaining_loop all_usernames already_scraped []"

text \<open>
  \<^verbatim>\<open>remaining = [f for f in followers if str(f["ig_user_id"]) not in enriched_ids]\<close>
  (\<^verbatim>\<open>cmd_enrich\<close> of ig\_api\_scraper.py). The followers are dicts, a follower without
  the key raises KeyError, and Python's builtin \<^verbatim>\<open>str\<close> is the parameter \<open>str\<close>.
\<close>

fun enrich_remaining_loop ::
  "(json \<Rightarrow> string) \<Rightarrow> dict list \<Rightarrow> string set \<Rightarrow> dict list \<Rightarrow> error + dict list" where
  "enrich_remaining_loop str [] ids acc = Inr acc"
| "enrich_remaining_loop str (f # fs) ids acc =
     (case getitem f ''ig_user_id'' of
        Inl e \<Rightarrow> Inl e
      | Inr v \<Rightarrow>
          if str v \<notin> ids then enrich_remaining_loop str fs ids (acc @ [f])
          else enrich_remaining_loop str fs ids acc)"

definition enrich_remaining ::
  "(json \<Rightarrow> string) \<Rightarrow> dict list \<Rightarrow> string set \<Rightarrow> error + dict list" where
  "enrich_remaining str followers enriched_ids =
     enrich_remaining_loop str followers enriched_ids []"

section \<open>Direct polling with retries: api\_get\<close>

text \<open>
  What one \<^verbatim>\<open>session.get\<close> does: it raises a \<^verbatim>\<open>RequestException\<close>, or returns a
  response with a status code and a body, \<open>None\<close> when the body is not JSON. The remote
  service is a function from the attempt number to what the request of that attempt
  meets.
\<close>

datatype response = Raised | Resp int "json option"

text \<open>
  What a call of \<^verbatim>\<open>api_get\<close> did: its result (the returned document, or the
  exception or exit that left it), the \<^verbatim>\<open>time.sleep\<close> delays in seconds in the order
  they were slept, and the number of requests sent.
\<close>

record api_run =
  result :: "error + json"
  waits :: "int list"
  requests :: nat

definition finish :: "error + json \<Rightarrow> api_run" where
  "finish res = \<lparr>result = res, waits = [], requests = 1\<rparr>"

definition sleep_then :: "int \<Rightarrow> api_run \<Rightarrow> api_run" where
  "sleep_then wait r = r\<lparr>waits := wait # waits r, requests := Suc (requests r)\<rparr>"

text \<open>
  The loop of \<^verbatim>\<open>api_get\<close>, over the attempts left of \<^verbatim>\<open>range(max_retries)\<close>:

  \<^verbatim>\<open>for attempt in range(max_retries):\<close>
  \<^verbatim>\<open>    try:\<close>
  \<^verbatim>\<open>        resp = session.get(url, params=params, timeout=30)\<close>
  \<^verbatim>\<open>        if resp.status_code == 429:\<close>
  \<^verbatim>\<open>            wait = ...; time.sleep(wait); continue\<close>
  \<^verbatim>\<open>        if resp.status_code == 401:\<close>
  \<^verbatim>\<open>            sys.exit(1)\<close>
  \<^verbatim>\<open>        if resp.status_code == 404:\<close>
  \<^verbatim>\<open>            return {}\<close>
  \<^verbatim>\<open>        resp.raise_for_status()\<close>
  \<^verbatim>\<open>        return resp.json()\<close>
  \<^verbatim>\<open>    except requests.exceptions.RequestException as e:\<close>
  \<^verbatim>\<open>        if attempt == max_retries - 1: raise\<close>
  \<^verbatim>\<open>        wait = ...; time.sleep(wait)\<close>
  \<^verbatim>\<open>return {}\<close>

  \<^verbatim>\<open>raise_for_status\<close> raises an \<^verbatim>\<open>HTTPError\<close> for the codes 400 to 599 and
  \<^verbatim>\<open>resp.json()\<close> a \<^verbatim>\<open>JSONDecodeError\<close> for a body that is not JSON; both are
  \<^verbatim>\<open>RequestException\<close>s and are caught by the handler. \<^verbatim>\<open>sys.exit\<close> raises
  \<^verbatim>\<open>SystemExit\<close>, which the handler does not catch. The two copies of the function
  differ in the two delays only, the parameters \<open>wait_429\<close> and \<open>wait_err\<close>.
\<close>

fun api_get_loop ::
  "(nat \<Rightarrow> int) \<Rightarrow> (nat \<Rightarrow> int) \<Rightarrow> (nat \<Rightarrow> response) \<Rightarrow> int \<Rightarrow> nat list \<Rightarrow> api_run" where
  "api_get_loop wait_429 wait_err session max_retries [] =
     \<lparr>result = Inr (JObj []), waits = [], requests = 0\<rparr>"
| "api_get_loop wait_429 wait_err session max_retries (attempt # rest) =
     (case session attempt of
        Raised \<Rightarrow>
          if int attempt = max_retries - 1 then finish (Inl RequestException)
          else sleep_then (wait_err attempt)
                 (api_get_loop wait_429 wait_err session max_retries rest)
      | Resp status_code body \<Rightarrow>
          if status_code = 429
          then sleep_then (wait_429 attempt)
                 (api_get_loop wait_429 wait_err session max_retries rest)
          else if status_code = 401 then finish (Inl (SystemExit 1))
          else if status_code = 404 then finish (Inr (JObj []))
          else if (400 \<le> status_code \<and> status_code < 600) \<or> body = None
          then (if int attempt = max_retries - 1 then finish (Inl RequestException)
                else sleep_then (wait_err attempt)
                       (api_get_loop wait_429 wait_err session max_retries rest))
          else finish (Inr (the body)))"

text \<open>
  \<^verbatim>\<open>api_get\<close> of export\_scraper.py (\<^verbatim>\<open>max_retries\<close> defaults to 8):
  \<^verbatim>\<open>wait = min(60 * (2 ** attempt), 900)\<close> after a 429 and
  \<^verbatim>\<open>wait = min(30 * (2 ** attempt), 900)\<close> after an exception.
\<close>

definition export_api_get :: "(nat \<Rightarrow> response) \<Rightarrow> int \<Rightarrow> api_run" where
  "export_api_get session max_retries =
     api_get_loop (\<lambda>attempt. min (60 * 2 ^ attempt) 900) (\<lambda>attempt. min (30 * 2 ^ attempt) 900)
       session max_retries [0 ..< nat max_retries]"

text \<open>
  \<^verbatim>\<open>api_get\<close> of ig\_api\_scraper.py (\<^verbatim>\<open>max_retries\<close> defaults to 3):
  \<^verbatim>\<open>wait = 60 * (2 ** attempt)\<close> after a 429 and \<^verbatim>\<open>wait = 30 * (2 ** attempt)\<close>
  after an exception.
\<close>

definition ig_api_get :: "(nat \<Rightarrow> response) \<Rightarrow> int \<Rightarrow> api_run" where
  "ig_api_get session max_retries =
     api_get_loop (\<lambda>attempt. 60 * 2 ^ attempt) (\<lambda>attempt. 30 * 2 ^ attempt)
       session max_retries [0 ..< nat max_retries]"

text \<open>
  Two services for concrete runs: one that answers every request with 429, and one
  that replays a list of responses and answers 200 with an empty document afterwards.
\<close>

definition always_429 :: "nat \<Rightarrow> response" where
  "always_429 attempt = Resp 429 None"

definition replay :: "response list \<Rightarrow> nat \<Rightarrow> response" where
  "replay rs attempt = (if attempt < length rs then rs ! attempt else Resp 200 (Some (JObj [])))"

section \<open>Collecting follower usernames: scrape\_followers.py\<close>

text \<open>
  \<^verbatim>\<open>cmd_followers\<close> of scrape\_followers.py. The iterator \<^verbatim>\<open>profile.get_followers()\<close>
  of one attempt is the list of what it does, in order: it yields a follower with a
  username, it raises one of the two exceptions the loop catches as a rate limit, the
  user interrupts, or it raises another exception, which the command does not catch.
  A list that ends is an iterator that is exhausted.
\<close>

datatype event = Follower string | RateLimited | KeyboardInterrupt | OtherException

text \<open>
  The state of the command: the set \<^verbatim>\<open>collected\<close>, the counter \<^verbatim>\<open>count\<close>, and
  the contents written to the followers file so far, oldest first. Usernames are
  strings, ordered as Python orders them: character by character, by code.
\<close>

record followers_state =
  collected :: "string set"
  count :: nat
  writes :: "string list list"

text \<open>\<^verbatim>\<open>json.dump(sorted(collected), f)\<close>\<close>

definition save :: "followers_state \<Rightarrow> followers_state" where
  "save st = st\<lparr>writes := writes st @ [sorted_list_of_set (collected st)]\<rparr>"

datatype ending = Exhausted | Failed | Interrupted | Crashed

text \<open>
  \<^verbatim>\<open>for follower in follower_iter:\<close>
  \<^verbatim>\<open>    if follower.username in collected:\<close>
  \<^verbatim>\<open>        continue\<close>
  \<^verbatim>\<open>    collected.add(follower.username)\<close>
  \<^verbatim>\<open>    count += 1\<close>
  \<^verbatim>\<open>    if count % save_interval == 0:\<close>
  \<^verbatim>\<open>        with open(followers_file, "w") as f:\<close>
  \<^verbatim>\<open>            json.dump(sorted(collected), f)\<close>
  with \<^verbatim>\<open>save_interval = 100\<close>. The pauses that follow in the loop body write
  nothing and are left out.
\<close>

fun follower_loop :: "event list \<Rightarrow> followers_state \<Rightarrow> ending \<times> followers_state" where
  "follower_loop [] st = (Exhausted, st)"
| "follower_loop (Follower username # evs) st =
     (if username \<in> collected st then follower_loop evs st
      else
        let st1 = st\<lparr>collected := insert username (collected st), count := count st + 1\<rparr>;
            st2 = (if count st1 mod 100 = 0 then save st1 else st1)
        in follower_loop evs st2)"
| "follower_loop (RateLimited # evs) st = (Failed, st)"
| "follower_loop (KeyboardInterrupt # evs) st = (Interrupted, st)"
| "follower_loop (OtherException # evs) st = (Crashed, st)"

text \<open>
  \<^verbatim>\<open>for attempt in range(max_retries):\<close> with \<^verbatim>\<open>max_retries = 5\<close>. Each attempt takes
  a new iterator and sets \<^verbatim>\<open>count = len(collected)\<close>. An exhausted iterator and an
  interrupt leave the loop; a rate limit saves and goes on to the next attempt. The
  boolean of the result tells whether an uncaught exception ended the command.
\<close>

fun attempts_loop ::
  "(nat \<Rightarrow> event list) \<Rightarrow> nat list \<Rightarrow> followers_state \<Rightarrow> bool \<times> followers_state" where
  "attempts_loop iters [] st = (False, st)"
| "attempts_loop iters (attempt # rest) st =
     (case follower_loop (iters attempt) (st\<lparr>count := card (collected st)\<rparr>) of
        (Exhausted, st') \<Rightarrow> (False, st')
      | (Failed, st') \<Rightarrow> attempts_loop iters rest (save st')
      | (Interrupted, st') \<Rightarrow> (False, st')
      | (Crashed, st') \<Rightarrow> (True, st'))"

text \<open>
  The command: \<^verbatim>\<open>collected = set(json.load(f))\<close> when the followers file exists, the
  attempts, and the final save, which an uncaught exception does not reach. The result
  is every content written to the file, in the order of writing.
\<close>

definition cmd_followers :: "string list option \<Rightarrow> (nat \<Rightarrow> event list) \<Rightarrow> string list list" where
  "cmd_followers followers_file iters =
     (let loaded = (case followers_file of None \<Rightarrow> {} | Some names \<Rightarrow> set names)
      in case attempts_loop iters [0 ..< 5] \<lparr>collected = loaded, count = 0, writes = []\<rparr> of
           (crashed, st) \<Rightarrow> if crashed then writes st else writes (save st))"

text \<open>
  The invariant of the two loops, for the set \<open>L\<close> of usernames that were loaded: the
  collected set is finite and holds \<open>L\<close>, and every content written so far is sorted,
  free of duplicates and holds \<open>L\<close>.
\<close>

definition writes_ok :: "string set \<Rightarrow> followers_state \<Rightarrow> bool" where
  "writes_ok L st \<longleftrightarrow>
     finite (collected st) \<and> L \<subseteq> collected st
     \<and> (\<forall>w \<in> set (writes st). sorted w \<and> distinct w \<and> L \<subseteq> set w)"

text \<open>
  The contract of the command in the words of the specification. An iterator yields
  usernames until it ends, and ends in one of four ways.
\<close>

fun yielded :: "event list \<Rightarrow> string list" where
  "yielded (Follower username # evs) = username # yielded evs"
| "yielded evs = []"

fun ending_of :: "event list \<Rightarrow> ending" where
  "ending_of [] = Exhausted"
| "ending_of (Follower username # evs) = ending_of evs"
| "ending_of (RateLimited # evs) = Failed"
| "ending_of (KeyboardInterrupt # evs) = Interrupted"
| "ending_of (OtherException # evs) = Crashed"

text \<open>
  The periodic checkpoints while the usernames \<open>us\<close> are added to the collected set
  \<open>C\<close>: each time a new username brings the size of the set to a multiple of 100, the
  set is persisted as its sorted list.
\<close>

fun checkpoints :: "string set \<Rightarrow> string list \<Rightarrow> string list list" where
  "checkpoints C [] = []"
| "checkpoints C (u # us) =
     (if u \<in> C then checkpoints C us
      else (if card (insert u C) mod 100 = 0 then [sorted_list_of_set (insert u C)] else [])
           @ checkpoints (insert u C) us)"

text \<open>
  Every write of a run that starts with the collected set \<open>C\<close>: the checkpoints of
  each attempt, the save of the collected set after an attempt that was rate limited,
  and the final save of the collected set, which follows an iterator that is
  exhausted or interrupted and the last of the attempts.
\<close>

fun expected_writes :: "(nat \<Rightarrow> event list) \<Rightarrow> nat list \<Rightarrow> string set \<Rightarrow> string list list" where
  "expected_writes iters [] C = [sorted_list_of_set C]"
| "expected_writes iters (attempt # rest) C =
     checkpoints C (yielded (iters attempt))
     @ (case ending_of (iters attempt) of
          Exhausted \<Rightarrow> [sorted_list_of_set (C \<union> set (yielded (iters attempt)))]
        | Interrupted \<Rightarrow> [sorted_list_of_set (C \<union> set (yielded (iters attempt)))]
        | Crashed \<Rightarrow> []
        | Failed \<Rightarrow>
            sorted_list_of_set (C \<union> set (yielded (iters attempt)))
            # expected_writes iters rest (C \<union> set (yielded (iters attempt))))"

text \<open>An example run: a rate limit in the first attempt, a second attempt that ends.\<close>

definition iters_example :: "nat \<Rightarrow> event list" where
  "iters_example attempt =
     (if attempt = 0 then [Follower ''amy'', Follower ''bob'', RateLimited]
      else [Follower ''amy'', Follower ''Cat''])"

text \<open>
  A run that reaches a checkpoint: 99 usernames are loaded, the iterator of the first
  attempt yields a new one and a known one and is rate limited, the second yields
  another new one.
\<close>

definition iters_checkpoint :: "nat \<Rightarrow> event list" where
  "iters_checkpoint attempt =
     (if attempt = 0 then [Follower ''amy'', Follower ''u5'', RateLimited]
      else [Follower ''bob''])"

section \<open>Parsing the data export: parse\_relationship\_entries\<close>

text \<open>
  The string methods that \<^verbatim>\<open>parse_relationship_entries\<close> of export\_scraper.py uses.
  A string is the list of its characters, each a code point below 256.
  \<open>isspace\<close> lists the characters that \<^verbatim>\<open>str.strip()\<close> removes in that range.
\<close>

definition isspace :: "char \<Rightarrow> bool" where
  "isspace c \<longleftrightarrow>
     of_char c \<in> {9, 10, 11, 12, 13, 28, 29, 30, 31, 32, 133, 160 :: nat}"

definition strip :: "string \<Rightarrow> string" where
  "strip s = rev (dropWhile isspace (rev (dropWhile isspace s)))"

text \<open>\<^verbatim>\<open>href.rstrip("/")\<close> and \<^verbatim>\<open>s.split("/")[-1]\<close>, the part after the last slash.\<close>

definition rstrip_slash :: "string \<Rightarrow> string" where
  "rstrip_slash s = rev (dropWhile (\<lambda>c. c = CHR ''/'') (rev s))"

definition last_segment :: "string \<Rightarrow> string" where
  "last_segment s = rev (takeWhile (\<lambda>c. c \<noteq> CHR ''/'') (rev s))"

text \<open>\<^verbatim>\<open>needle in hay\<close> on two strings.\<close>

fun contains :: "string \<Rightarrow> string \<Rightarrow> bool" where
  "contains needle [] = (needle = [])"
| "contains needle (c # cs) = (take (length needle) (c # cs) = needle \<or> contains needle cs)"

text \<open>One parsed entry, the dict with the keys handle, follow\_date and timestamp.\<close>

record entry =
  handle :: string
  follow_date :: string
  timestamp :: json

text \<open>
  \<^verbatim>\<open>href = sd.get("href", "")\<close>
  \<^verbatim>\<open>if "instagram.com/" in href:\<close>
  \<^verbatim>\<open>    username = href.rstrip("/").split("/")[-1]\<close>
  The result is the username after these lines, which is still empty when the test
  fails. On a list or a dict \<^verbatim>\<open>in\<close> tests the elements or the keys, and \<^verbatim>\<open>rstrip\<close>
  does not exist; on the other values \<^verbatim>\<open>in\<close> raises.
\<close>

definition href_username :: "json \<Rightarrow> error + string" where
  "href_username href =
     (case href of
        JStr h \<Rightarrow>
          Inr (if contains ''instagram.com/'' h then last_segment (rstrip_slash h) else [])
      | JList xs \<Rightarrow>
          if JStr ''instagram.com/'' \<in> set xs then Inl AttributeError else Inr []
      | JObj kvs \<Rightarrow>
          if ''instagram.com/'' \<in> fst ` set kvs then Inl AttributeError else Inr []
      | _ \<Rightarrow> Inl TypeError)"

text \<open>
  The body of \<^verbatim>\<open>for sd in string_data\<close>; \<open>None\<close> is the \<^verbatim>\<open>continue\<close> that
  appends nothing. \<^verbatim>\<open>datetime.fromtimestamp(timestamp, tz=timezone.utc)\<close> followed by
  \<^verbatim>\<open>.strftime("%Y-%m-%d")\<close> is the parameter \<open>utc_date\<close>, which may raise. A value
  that is not a dict has no \<^verbatim>\<open>get\<close>, and a value that is not a string no
  \<^verbatim>\<open>strip\<close>.
\<close>

definition parse_sd :: "(json \<Rightarrow> error + string) \<Rightarrow> json \<Rightarrow> error + entry option" where
  "parse_sd utc_date sd =
     (case sd of
        JObj d \<Rightarrow>
          (case get_default d ''value'' (JStr []) of
             JStr v \<Rightarrow>
               (case (if strip v \<noteq> [] then Inr (strip v)
                      else href_username (get_default d ''href'' (JStr []))) of
                  Inl e \<Rightarrow> Inl e
                | Inr username \<Rightarrow>
                    if username = [] then Inr None
                    else
                      let ts = get_default d ''timestamp'' (JInt 0)
                      in if truthy ts
                         then (case utc_date ts of
                                 Inl e \<Rightarrow> Inl e
                               | Inr date \<Rightarrow>
                                   Inr (Some \<lparr>handle = username, follow_date = date,
                                              timestamp = ts\<rparr>))
                         else Inr (Some \<lparr>handle = username, follow_date = [],
                                         timestamp = ts\<rparr>))
           | _ \<Rightarrow> Inl AttributeError)
      | _ \<Rightarrow> Inl AttributeError)"

fun parse_string_data ::
  "(json \<Rightarrow> error + string) \<Rightarrow> json list \<Rightarrow> entry list \<Rightarrow> error + entry list" where
  "parse_string_data utc_date [] entries = Inr entries"
| "parse_string_data utc_date (sd # sds) entries =
     (case parse_sd utc_date sd of
        Inl e \<Rightarrow> Inl e
      | Inr None \<Rightarrow> parse_string_data utc_date sds entries
      | Inr (Some en) \<Rightarrow> parse_string_data utc_date sds (entries @ [en]))"

text \<open>
  \<^verbatim>\<open>for item in data:\<close>
  \<^verbatim>\<open>    string_data = item.get("string_list_data", [])\<close>
  \<^verbatim>\<open>    if not string_data:\<close>
  \<^verbatim>\<open>        continue\<close>
  \<^verbatim>\<open>    for sd in string_data: ...\<close>
  A true \<^verbatim>\<open>string_data\<close> that is a string or a dict is iterated over strings, which
  have no \<^verbatim>\<open>get\<close>; a number or a boolean cannot be iterated.
\<close>

fun parse_items ::
  "(json \<Rightarrow> error + string) \<Rightarrow> json list \<Rightarrow> entry list \<Rightarrow> error + entry list" where
  "parse_items utc_date [] entries = Inr entries"
| "parse_items utc_date (item # items) entries =
     (case item of
        JObj d \<Rightarrow>
          (let string_data = get_default d ''string_list_data'' (JList [])
           in if \<not> truthy string_data then parse_items utc_date items entries
              else (case string_data of
                      JList sds \<Rightarrow>
                        (case parse_string_data utc_date sds entries of
                           Inl e \<Rightarrow> Inl e
                         | Inr entries' \<Rightarrow> parse_items utc_date items entries')
                    | JObj kvs \<Rightarrow> Inl AttributeError
                    | JStr s \<Rightarrow> Inl AttributeError
                    | _ \<Rightarrow> Inl TypeError))
      | _ \<Rightarrow> Inl AttributeError)"

text \<open>
  The function: a dict is unwrapped to the first of its values that is a list, and
  gives no entries when it has none. Iterating a non-empty string meets characters,
  which have no \<^verbatim>\<open>get\<close>; null, numbers and booleans cannot be iterated.
\<close>

fun is_list :: "json \<Rightarrow> bool" where
  "is_list (JList xs) = True"
| "is_list v = False"

definition parse_relationship_entries ::
  "(json \<Rightarrow> error + string) \<Rightarrow> json \<Rightarrow> error + entry list" where
  "parse_relationship_entries utc_date data =
     (case data of
        JObj kvs \<Rightarrow>
          (case find (\<lambda>(key, value). is_list value) kvs of
             Some (key, JList items) \<Rightarrow> parse_items utc_date items []
           | _ \<Rightarrow> Inr [])
      | JList items \<Rightarrow> parse_items utc_date items []
      | JStr s \<Rightarrow> if s = [] then Inr [] else Inl AttributeError
      | _ \<Rightarrow> Inl TypeError)"

text \<open>
  The contract of the parser in the words of the specification. \<open>field_str\<close> is the
  string of a field, empty when the field is missing. The handle of an item is its
  value without the surrounding blanks and, when that is empty, the last path segment
  of its href, trailing slashes apart, if the href is one of instagram.com; the handle
  is empty when neither route gives one.
\<close>

fun is_str :: "json \<Rightarrow> bool" where
  "is_str (JStr s) = True"
| "is_str v = False"

fun str_or_missing :: "json option \<Rightarrow> bool" where
  "str_or_missing None = True"
| "str_or_missing (Some v) = is_str v"

definition field_str :: "dict \<Rightarrow> string \<Rightarrow> string" where
  "field_str d k = (case map_of d k of Some (JStr s) \<Rightarrow> s | _ \<Rightarrow> [])"

definition expected_handle :: "dict \<Rightarrow> string" where
  "expected_handle d =
     (if strip (field_str d ''value'') \<noteq> [] then strip (field_str d ''value'')
      else if contains ''instagram.com/'' (field_str d ''href'')
      then last_segment (rstrip_slash (field_str d ''href''))
      else [])"

text \<open>
  The entry expected of an item: none when it has no handle, and otherwise its handle,
  the UTC date of its timestamp when that is present and not zero and the empty string
  if not, and its timestamp, 0 when missing.
\<close>

definition expected_entry :: "(json \<Rightarrow> error + string) \<Rightarrow> dict \<Rightarrow> entry option" where
  "expected_entry utc_date d =
     (if expected_handle d = [] then None
      else Some \<lparr>handle = expected_handle d,
                 follow_date =
                   (if truthy (get_default d ''timestamp'' (JInt 0))
                    then (case utc_date (get_default d ''timestamp'' (JInt 0)) of
                            Inr date \<Rightarrow> date | Inl e \<Rightarrow> [])
                    else []),
                 timestamp = get_default d ''timestamp'' (JInt 0)\<rparr>)"

text \<open>
  The entries expected of one element of the export: those of the items of its
  \<^verbatim>\<open>string_list_data\<close>, in their order.
\<close>

definition item_entries :: "(json \<Rightarrow> error + string) \<Rightarrow> json \<Rightarrow> entry list" where
  "item_entries utc_date element =
     (case element of
        JObj it \<Rightarrow>
          (case map_of it ''string_list_data'' of
             Some (JList sds) \<Rightarrow>
               List.map_filter
                 (\<lambda>sd. case sd of JObj d \<Rightarrow> expected_entry utc_date d | _ \<Rightarrow> None) sds
           | _ \<Rightarrow> [])
      | _ \<Rightarrow> [])"

text \<open>
  The exports that the contract is about. An item is plain when it is an object whose
  value and href are strings when present and whose timestamp, if the item has a
  handle and the timestamp is not zero, is one that the date conversion accepts. An
  element is plain when it is an object whose \<^verbatim>\<open>string_list_data\<close> is missing, false
  (null, an empty list) or a list of plain items.
\<close>

definition plain_sd :: "(json \<Rightarrow> error + string) \<Rightarrow> json \<Rightarrow> bool" where
  "plain_sd utc_date sd =
     (case sd of
        JObj d \<Rightarrow>
          str_or_missing (map_of d ''value'') \<and> str_or_missing (map_of d ''href'')
          \<and> (expected_handle d \<noteq> [] \<and> truthy (get_default d ''timestamp'' (JInt 0)) \<longrightarrow>
               \<not> isl (utc_date (get_default d ''timestamp'' (JInt 0))))
      | _ \<Rightarrow> False)"

definition plain_item :: "(json \<Rightarrow> error + string) \<Rightarrow> json \<Rightarrow> bool" where
  "plain_item utc_date element =
     (case element of
        JObj it \<Rightarrow>
          (case map_of it ''string_list_data'' of
             None \<Rightarrow> True
           | Some (JList sds) \<Rightarrow> list_all (plain_sd utc_date) sds
           | Some v \<Rightarrow> \<not> truthy v)
      | _ \<Rightarrow> False)"

text \<open>
  The elements of an export in either format: the list itself, or the first list
  among the values of the object, and no elements for an object without a list.
\<close>

definition export_items :: "json \<Rightarrow> json list option" where
  "export_items data =
     (case data of
        JList items \<Rightarrow> Some items
      | JObj kvs \<Rightarrow>
          (case find (\<lambda>(key, value). is_list value) kvs of
             Some (key, JList items) \<Rightarrow> Some items
           | _ \<Rightarrow> Some [])
      | _ \<Rightarrow> None)"

text \<open>
  An item on which the code raises: its value is present and not a string (null, for
  one), or its value is missing or blank and its href is null, a number or a boolean.
\<close>

definition raises_on :: "dict \<Rightarrow> bool" where
  "raises_on d \<longleftrightarrow>
     (case map_of d ''value'' of Some v \<Rightarrow> \<not> is_str v | None \<Rightarrow> False)
     \<or> (str_or_missing (map_of d ''value'') \<and> strip (field_str d ''value'') = []
         \<and> (case map_of d ''href'' of
               Some JNull \<Rightarrow> True
             | Some (JInt n) \<Rightarrow> True
             | Some (JFloat x) \<Rightarrow> True
             | Some (JBool b) \<Rightarrow> True
             | _ \<Rightarrow> False))"

text \<open>
  What the properties say of one entry: the handle is not empty, and the follow date is
  the date of the timestamp when the timestamp is true and empty otherwise.
\<close>

definition entry_ok :: "(json \<Rightarrow> error + string) \<Rightarrow> entry \<Rightarrow> bool" where
  "entry_ok utc_date e \<longleftrightarrow>
     handle e \<noteq> []
     \<and> (if truthy (timestamp e) then utc_date (timestamp e) = Inr (follow_date e)
        else follow_date e = [])"

text \<open>
  A date function for concrete runs, after \<^verbatim>\<open>datetime.fromtimestamp(ts, tz=utc)\<close>
  and \<^verbatim>\<open>strftime("%Y-%m-%d")\<close>: the proleptic Gregorian date of a number of seconds
  since 1970-01-01 UTC, with the year in four digits. \<open>civil\<close> turns a day number,
  negative before 1970, into year, month and day.
\<close>

definition civil :: "int \<Rightarrow> int \<times> int \<times> int" where
  "civil days =
     (let z = days + 719468;
          era = z div 146097;
          doe = z mod 146097;
          yoe = (doe - doe div 1460 + doe div 36524 - doe div 146096) div 365;
          doy = doe - (365 * yoe + yoe div 4 - yoe div 100);
          mp = (5 * doy + 2) div 153;
          d = doy - (153 * mp + 2) div 5 + 1;
          m = (if mp < 10 then mp + 3 else mp - 9);
          y = yoe + era * 400 + (if m \<le> 2 then 1 else 0)
      in (y, m, d))"

definition digit :: "int \<Rightarrow> char" where
  "digit n = char_of (48 + n)"

definition pad2 :: "int \<Rightarrow> string" where
  "pad2 n = [digit (n div 10 mod 10), digit (n mod 10)]"

definition pad4 :: "int \<Rightarrow> string" where
  "pad4 n = [digit (n div 1000 mod 10), digit (n div 100 mod 10),
             digit (n div 10 mod 10), digit (n mod 10)]"

text \<open>
  The whole seconds of a timestamp: an integer is taken as it is, a boolean is the
  integer 0 or 1, and a float is rounded to microseconds, halves to even, which adds
  a second when its fraction is at least 0.9999995. The other values are refused with
  a TypeError.
\<close>

definition whole_seconds :: "json \<Rightarrow> int option" where
  "whole_seconds ts =
     (case ts of
        JInt n \<Rightarrow> Some n
      | JBool b \<Rightarrow> Some (if b then 1 else 0)
      | JFloat x \<Rightarrow>
          Some (\<lfloor>x\<rfloor> + (if 9999995 / 10000000 \<le> x - of_int \<lfloor>x\<rfloor> then 1 else 0))
      | _ \<Rightarrow> None)"

text \<open>
  The years 1 to 9999 have a date. Beyond them the conversion raises: OverflowError
  for a number of seconds that does not fit the 64 bits of the platform's time,
  OSError for one whose year does not fit the 32 bits of the C library's calendar
  year (\<^verbatim>\<open>gmtime_r\<close> fails), and ValueError otherwise.
\<close>

definition utc_date_int :: "json \<Rightarrow> error + string" where
  "utc_date_int ts =
     (case whole_seconds ts of
        None \<Rightarrow> Inl TypeError
      | Some n \<Rightarrow>
          if n < - (2 ^ 63) \<or> 2 ^ 63 \<le> n then Inl OverflowError
          else if n < - 67768040609740800 \<or> 67768036191676800 \<le> n then Inl OSError
          else if - 62135596800 \<le> n \<and> n < 253402300800
          then (case civil (n div 86400) of
                  (y, m, d) \<Rightarrow> Inr (pad4 y @ ''-'' @ pad2 m @ ''-'' @ pad2 d))
          else Inl ValueError)"

text \<open>An export document in the object format, for a concrete run, and its elements.\<close>

definition export_example_items :: "json list" where
  "export_example_items =
       [JObj [(''title'', JStr []),
              (''string_list_data'', JList
                 [JObj [(''href'', JStr ''https://www.instagram.com/alice/''),
                        (''value'', JStr '' ''),
                        (''timestamp'', JInt 1700000000)]])],
        JObj [(''title'', JStr []), (''string_list_data'', JList [])],
        JObj [(''string_list_data'', JList
                 [JObj [(''value'', JStr ''bob'')],
                  JObj [(''href'', JStr ''https://example.com/carol''),
                        (''timestamp'', JInt 1700000000)]])]]"

definition export_example :: json where
  "export_example = JObj [(''relationships_followers'', JList export_example_items)]"

text \<open>
  Two exports in the list format whose second item has a null value, or no value and
  a null href.
\<close>

definition export_null_value :: json where
  "export_null_value =
     JList [JObj [(''string_list_data'', JList
              [JObj [(''value'', JStr ''alice'')],
               JObj [(''value'', JNull),
                     (''href'', JStr ''https://www.instagram.com/bob'')]])]]"

definition export_null_href :: json where
  "export_null_href =
     JList [JObj [(''string_list_data'', JList
              [JObj [(''value'', JStr ''alice'')],
               JObj [(''href'', JNull)]])]]"

section \<open>Normalizing follower records\<close>


text \<open>\<^verbatim>\<open>s.replace("\n", " | ")\<close>\<close>

definition replace_newlines :: "string \<Rightarrow> string" where
  "replace_newlines s = concat (map (\<lambda>c. if c = CHR 0x0A then '' | '' else [c]) s)"





section \<open>Converting raw profiles to rows: convert\_apify\_to\_csv\<close>

text \<open>\<^verbatim>\<open>x[0]\<close> on a JSON value: a dict from JSON has no key \<open>0\<close>.\<close>

fun subscript0 :: "json \<Rightarrow> error + json" where
  "subscript0 (JList (x # xs)) = Inr x"
| "subscript0 (JList []) = Inl IndexError"
| "subscript0 (JStr (c # cs)) = Inr (JStr [c])"
| "subscript0 (JStr []) = Inl IndexError"
| "subscript0 (JObj kvs) = Inl KeyError"
| "subscript0 v = Inl TypeError"

text \<open>
  \<^verbatim>\<open>external_urls = entry.get("externalUrls") or []\<close>
  \<^verbatim>\<open>external_url = external_urls[0] if external_urls else ""\<close>
  \<^verbatim>\<open>if isinstance(external_url, dict):\<close>
  \<^verbatim>\<open>    external_url = external_url.get("url", "")\<close>
\<close>

definition external_url_of :: "dict \<Rightarrow> error + json" where
  "external_url_of entry =
     (let external_urls = py_or (get entry ''externalUrls'') (JList [])
      in case (if truthy external_urls then subscript0 external_urls else Inr (JStr [])) of
           Inl e \<Rightarrow> Inl e
         | Inr (JObj d) \<Rightarrow> Inr (get_default d ''url'' (JStr []))
         | Inr v \<Rightarrow> Inr v)"

text \<open>
  The body of \<^verbatim>\<open>for entry in apify_data\<close> in \<^verbatim>\<open>convert_apify_to_csv\<close> of
  apify\_to\_report.py: \<open>None\<close> is an entry that is skipped for its missing username,
  otherwise the row handed to the CSV writer. \<open>handle_to_date\<close> is the dict of follow
  dates, loaded from the followers export before the loop; a list or a dict cannot
  be looked up in it.
\<close>

definition convert_row :: "(json \<Rightarrow> json option) \<Rightarrow> dict \<Rightarrow> error + dict option" where
  "convert_row handle_to_date entry =
     (let username = get_default entry ''username'' (JStr [])
      in if \<not> truthy username then Inr None
         else
           case external_url_of entry of
             Inl e \<Rightarrow> Inl e
           | Inr external_url \<Rightarrow>
               (case py_or (get entry ''biography'') (JStr []) of
                  JStr bio \<Rightarrow>
                    if \<not> hashable username then Inl TypeError
                    else
                      Inr (Some
                        [(''handle'', username),
                         (''ig_user_id'', get_default entry ''id'' (JStr [])),
                         (''full_name'', get_default entry ''fullName'' (JStr [])),
                         (''follower_count'', get_default entry ''followersCount'' (JInt 0)),
                         (''following_count'', get_default entry ''followsCount'' (JInt 0)),
                         (''is_verified'', get_default entry ''verified'' (JBool False)),
                         (''is_private'', get_default entry ''private'' (JBool False)),
                         (''is_business'',
                            get_default entry ''isBusinessAccount'' (JBool False)),
                         (''is_professional'',
                            get_default entry ''isProfessionalAccount'' (JBool False)),
                         (''category'',
                            py_or (get entry ''businessCategoryName'') (JStr [])),
                         (''bio'', JStr (replace_newlines bio)),
                         (''external_url'', external_url),
                         (''post_count'', get_default entry ''postsCount'' (JInt 0)),
                         (''profile_pic_url'',
                            py_or (get entry ''profilePicUrlHD'')
                              (get_default entry ''profilePicUrl'' (JStr []))),
                         (''follow_date'',
                            (case handle_to_date username of
                               None \<Rightarrow> JStr [] | Some date \<Rightarrow> date))])
                | _ \<Rightarrow> Inl AttributeError))"

fun convert_rows :: "(json \<Rightarrow> json option) \<Rightarrow> dict list \<Rightarrow> dict list \<Rightarrow> error + dict list" where
  "convert_rows handle_to_date [] rows = Inr rows"
| "convert_rows handle_to_date (entry # entries) rows =
     (case convert_row handle_to_date entry of
        Inl e \<Rightarrow> Inl e
      | Inr None \<Rightarrow> convert_rows handle_to_date entries rows
      | Inr (Some row) \<Rightarrow> convert_rows handle_to_date entries (rows @ [row]))"

text \<open>The function opens its input first: a raw file that does not exist raises.\<close>

definition convert_apify_to_csv ::
  "(json \<Rightarrow> json option) \<Rightarrow> dict list option \<Rightarrow> error + dict list" where
  "convert_apify_to_csv handle_to_date input_file =
     (case input_file of
        None \<Rightarrow> Inl FileNotFoundError
      | Some apify_data \<Rightarrow> convert_rows handle_to_date apify_data [])"


section \<open>The batch collector: wait\_for\_run and cmd\_scrape\<close>

text \<open>
  \<^verbatim>\<open>wait_for_run\<close> of apify\_scrape.py. \<open>poll i\<close> is the run info that the \<open>i\<close>-th
  \<^verbatim>\<open>client.run(run_id).get()\<close> returns. The loop \<^verbatim>\<open>while True\<close> need not end, so it
  is a partial function: \<open>None\<close> is a call that polls forever. It returns the run info
  at which it stopped and the number of 15 second waits before it.
\<close>

definition terminal :: "json \<Rightarrow> bool" where
  "terminal status \<longleftrightarrow>
     status \<in> {JStr ''SUCCEEDED'', JStr ''FAILED'', JStr ''ABORTED'', JStr ''TIMED-OUT''}"

partial_function (option) wait_loop :: "(nat \<Rightarrow> dict) \<Rightarrow> nat \<Rightarrow> (error + dict \<times> nat) option" where
  "wait_loop poll i =
     (case getitem (poll i) ''status'' of
        Inl e \<Rightarrow> Some (Inl e)
      | Inr status \<Rightarrow>
          if terminal status then Some (Inr (poll i, i)) else wait_loop poll (Suc i))"

declare wait_loop.simps [code]

text \<open>
  \<^verbatim>\<open>if status != "SUCCEEDED":\<close>
  \<^verbatim>\<open>    sys.exit(1)\<close>
  \<^verbatim>\<open>return run_info\<close>
\<close>

definition wait_for_run :: "(nat \<Rightarrow> dict) \<Rightarrow> (error + dict) option" where
  "wait_for_run poll =
     (case wait_loop poll 0 of
        None \<Rightarrow> None
      | Some (Inl e) \<Rightarrow> Some (Inl e)
      | Some (Inr (run_info, n)) \<Rightarrow>
          if get run_info ''status'' \<noteq> JStr ''SUCCEEDED'' then Some (Inl (SystemExit 1))
          else Some (Inr run_info))"

text \<open>
  What the \<^verbatim>\<open>try\<close> block of \<^verbatim>\<open>cmd_scrape\<close> (apify\_to\_report.py) meets for one
  batch: an exception out of \<^verbatim>\<open>client.actor(...).call(...)\<close>, of the subscript
  \<^verbatim>\<open>run["defaultDatasetId"]\<close> or of \<^verbatim>\<open>iterate_items()\<close>, or a run with its status
  and the items of its dataset. The backend is a function of the position of the call
  and of the batch.
\<close>

datatype call_outcome = CallRaised | Run json "dict list"

text \<open>
  \<^verbatim>\<open>for i in range(0, len(remaining), batch_size):\<close>
  \<^verbatim>\<open>    batch = remaining[i : i + batch_size]\<close>
  \<^verbatim>\<open>    try:\<close>
  \<^verbatim>\<open>        run = client.actor(PROFILE_ACTOR).call(run_input={"usernames": batch}, ...)\<close>
  \<^verbatim>\<open>        dataset_id = run["defaultDatasetId"]\<close>
  \<^verbatim>\<open>        items = list(client.dataset(dataset_id).iterate_items())\<close>
  \<^verbatim>\<open>        existing.extend(items)\<close>
  \<^verbatim>\<open>        with open(raw_file, "w") as f:\<close>
  \<^verbatim>\<open>            json.dump(existing, f, indent=2)\<close>
  \<^verbatim>\<open>    except Exception as e:\<close>
  \<^verbatim>\<open>        break\<close>
  over the batches that are left, \<open>k\<close> being the number of calls made before. The
  result is the raw file after the loop and the batches that were submitted.
\<close>

fun scrape_loop ::
  "(nat \<Rightarrow> string list \<Rightarrow> call_outcome) \<Rightarrow> nat \<Rightarrow> string list list \<Rightarrow> dict list \<Rightarrow>
   dict list option \<Rightarrow> dict list option \<times> string list list" where
  "scrape_loop backend k [] existing raw_file = (raw_file, [])"
| "scrape_loop backend k (batch # rest) existing raw_file =
     (case backend k batch of
        CallRaised \<Rightarrow> (raw_file, [batch])
      | Run status items \<Rightarrow>
          (case scrape_loop backend (Suc k) rest (existing @ items) (Some (existing @ items)) of
             (raw_file', sub) \<Rightarrow> (raw_file', batch # sub)))"

text \<open>
  What a call of \<^verbatim>\<open>cmd_scrape\<close> leaves when it reaches the analysis: the raw results
  file, the batches it submitted, and the rows of the profiles CSV.
\<close>

record scrape_result =
  store :: "dict list option"
  submitted :: "string list list"
  profiles_csv :: "dict list"

text \<open>
  The scraping part of \<^verbatim>\<open>cmd_scrape\<close>, from the usernames that \<^verbatim>\<open>load_usernames\<close>
  returned: the resume filter, then the batches. \<^verbatim>\<open>total_batches\<close> is computed
  before the loop, outside the \<^verbatim>\<open>try\<close>.
\<close>

definition scrape_batches ::
  "(nat \<Rightarrow> string list \<Rightarrow> call_outcome) \<Rightarrow> string list \<Rightarrow> int \<Rightarrow> dict list option \<Rightarrow>
   error + dict list option \<times> string list list" where
  "scrape_batches backend all_usernames batch_size raw_file =
     (case load_already_scraped raw_file of
        Inl e \<Rightarrow> Inl e
      | Inr already_scraped \<Rightarrow>
          (let rem = remaining all_usernames already_scraped
           in if rem = [] then Inr (raw_file, [])
              else
                (case total_batches (length rem) batch_size of
                   Inl e \<Rightarrow> Inl e
                 | Inr n \<Rightarrow>
                     (case batches batch_size rem of
                        Inl e \<Rightarrow> Inl e
                      | Inr bs \<Rightarrow>
                          Inr (scrape_loop backend 0 bs
                                 (case raw_file of None \<Rightarrow> [] | Some data \<Rightarrow> data)
                                 raw_file)))))"

text \<open>
  \<^verbatim>\<open>cmd_scrape\<close>: whatever the batch loop did, the command goes on to
  \<^verbatim>\<open>convert_apify_to_csv(raw_file, target)\<close> and then to the analysis of
  export\_scraper.py, which is not part of this model.
\<close>

definition cmd_scrape ::
  "(nat \<Rightarrow> string list \<Rightarrow> call_outcome) \<Rightarrow> (json \<Rightarrow> json option) \<Rightarrow> string list \<Rightarrow> int \<Rightarrow>
   dict list option \<Rightarrow> error + scrape_result" where
  "cmd_scrape backend handle_to_date all_usernames batch_size raw_file =
     (case scrape_batches backend all_usernames batch_size raw_file of
        Inl e \<Rightarrow> Inl e
      | Inr (raw_file', sub) \<Rightarrow>
          (case convert_apify_to_csv handle_to_date raw_file' of
             Inl e \<Rightarrow> Inl e
           | Inr rows \<Rightarrow> Inr \<lparr>store = raw_file', submitted = sub, profiles_csv = rows\<rparr>))"

text \<open>
  Concrete runs: the work units \<open>u1, u2, ...\<close>, the profile a backend returns for a
  username, and two backends that return one profile for each username of the batch,
  except that the call of position \<open>bad\<close> raises, or returns a failed run with the
  profiles found so far.
\<close>

function show_nat :: "nat \<Rightarrow> string" where
  "show_nat n = (if n < 10 then [digit (int n)] else show_nat (n div 10) @ [digit (int (n mod 10))])"
  by pat_completeness auto
termination
  by (relation "measure id") auto

declare show_nat.simps [simp del]

definition units :: "nat \<Rightarrow> string list" where
  "units n = map (\<lambda>i. CHR ''u'' # show_nat i) [1 ..< Suc n]"

definition profile_of :: "string \<Rightarrow> dict" where
  "profile_of username = [(''username'', JStr username), (''followersCount'', JInt 7)]"

definition raising_at :: "nat \<Rightarrow> nat \<Rightarrow> string list \<Rightarrow> call_outcome" where
  "raising_at bad k batch =
     (if k = bad then CallRaised else Run (JStr ''SUCCEEDED'') (map profile_of batch))"

definition failed_run_at :: "nat \<Rightarrow> nat \<Rightarrow> string list \<Rightarrow> call_outcome" where
  "failed_run_at bad k batch =
     (if k = bad then Run (JStr ''FAILED'') (map profile_of (take 3 batch))
      else Run (JStr ''SUCCEEDED'') (map profile_of batch))"

definition no_dates :: "json \<Rightarrow> json option" where
  "no_dates username = None"

definition echo_backend :: "nat \<Rightarrow> string list \<Rightarrow> call_outcome" where
  "echo_backend k batch = Run (JStr ''SUCCEEDED'') (map profile_of batch)"

text \<open>The items that a call contributed to the store.\<close>

fun items_of :: "call_outcome \<Rightarrow> dict list" where
  "items_of CallRaised = []"
| "items_of (Run status items) = items"

definition polls_example :: "nat \<Rightarrow> dict" where
  "polls_example i =
     (if i < 3 then [(''status'', JStr ''RUNNING'')]
      else [(''status'', JStr ''FAILED''), (''defaultDatasetId'', JStr ''d1'')])"

section \<open>The follower store of ig\_api\_scraper.py\<close>

text \<open>
  \<^verbatim>\<open>collected: dict[str, dict]\<close> keeps its keys in the order of their first insertion:
  \<^verbatim>\<open>collected[k] = v\<close> replaces the value of a key in place and adds a new key at the
  end.
\<close>

fun dict_set :: "'k \<Rightarrow> 'v \<Rightarrow> ('k \<times> 'v) list \<Rightarrow> ('k \<times> 'v) list" where
  "dict_set k v [] = [(k, v)]"
| "dict_set k v ((k', v') # kvs) =
     (if k' = k then (k, v) # kvs else (k', v') # dict_set k v kvs)"

text \<open>
  \<^verbatim>\<open>for item in json.load(f):\<close>
  \<^verbatim>\<open>    collected[str(item["ig_user_id"])] = item\<close>
  Python's builtin \<^verbatim>\<open>str\<close> is the parameter \<open>str\<close>.
\<close>

fun load_collected ::
  "(json \<Rightarrow> string) \<Rightarrow> dict list \<Rightarrow> (string \<times> dict) list \<Rightarrow> error + (string \<times> dict) list" where
  "load_collected str [] coll = Inr coll"
| "load_collected str (item # items) coll =
     (case getitem item ''ig_user_id'' of
        Inl e \<Rightarrow> Inl e
      | Inr v \<Rightarrow> load_collected str items (dict_set (str v) item coll))"

text \<open>
  \<^verbatim>\<open>for u in users:\<close>
  \<^verbatim>\<open>    uid = str(u.get("pk") or u.get("pk_id", ""))\<close>
  \<^verbatim>\<open>    if not uid:\<close>
  \<^verbatim>\<open>        continue\<close>
  \<^verbatim>\<open>    collected[uid] = {"ig_user_id": uid, "handle": u.get("username", ""), ...}\<close>
\<close>

fun collect_users ::
  "(json \<Rightarrow> string) \<Rightarrow> json list \<Rightarrow> (string \<times> dict) list \<Rightarrow> error + (string \<times> dict) list" where
  "collect_users str [] coll = Inr coll"
| "collect_users str (u # users) coll =
     (case u of
        JObj d \<Rightarrow>
          (let uid = str (py_or (get d ''pk'') (get_default d ''pk_id'' (JStr [])))
           in if uid = [] then collect_users str users coll
              else collect_users str users
                     (dict_set uid
                        [(''ig_user_id'', JStr uid),
                         (''handle'', get_default d ''username'' (JStr [])),
                         (''full_name'', get_default d ''full_name'' (JStr [])),
                         (''is_private'', get_default d ''is_private'' (JBool False)),
                         (''is_verified'', get_default d ''is_verified'' (JBool False)),
                         (''profile_pic_url'', get_default d ''profile_pic_url'' (JStr []))]
                        coll))
      | _ \<Rightarrow> Inl AttributeError)"

text \<open>
  The pagination loop of \<^verbatim>\<open>cmd_followers\<close>. The list holds what \<^verbatim>\<open>api_get\<close> gives
  for the successive pages: the document of the page, or the exception or exit that
  ends the process. The list ends where the process is stopped from outside. The
  result is every content written to the followers file, oldest first: one after each
  page with users, and the final one when the loop ends by a \<^verbatim>\<open>break\<close>. An error
  ends the process without a further write.
\<close>

fun followers_pages ::
  "(json \<Rightarrow> string) \<Rightarrow> (error + dict) list \<Rightarrow> (string \<times> dict) list \<Rightarrow> dict list list \<Rightarrow>
   dict list list" where
  "followers_pages str [] coll written = written"
| "followers_pages str (Inl e # pages) coll written = written"
| "followers_pages str (Inr data # pages) coll written =
     (let users = get_default data ''users'' (JList [])
      in if \<not> truthy users then written @ [map snd coll]
         else
           (case users of
              JList us \<Rightarrow>
                (case collect_users str us coll of
                   Inl e \<Rightarrow> written
                 | Inr coll' \<Rightarrow>
                     if \<not> truthy (get data ''next_max_id'')
                     then written @ [map snd coll', map snd coll']
                     else followers_pages str pages coll'
                            (written @ [map snd coll']))
            | _ \<Rightarrow> written))"

text \<open>
  \<^verbatim>\<open>cmd_followers\<close> of ig\_api\_scraper.py, after the target has been resolved: the
  progress of an earlier run is loaded from the followers file, when there is one,
  and the pages are fetched.
\<close>

definition api_cmd_followers ::
  "(json \<Rightarrow> string) \<Rightarrow> dict list option \<Rightarrow> (error + dict) list \<Rightarrow> dict list list" where
  "api_cmd_followers str followers_file pages =
     (case (case followers_file of
              None \<Rightarrow> Inr []
            | Some items \<Rightarrow> load_collected str items []) of
        Inl e \<Rightarrow> []
      | Inr coll \<Rightarrow> followers_pages str pages coll [])"

text \<open>
  Restarts: each run starts from the file as the run before left it. The result is
  every content written by the runs, oldest first.
\<close>

fun api_restarts ::
  "(json \<Rightarrow> string) \<Rightarrow> dict list option \<Rightarrow> (error + dict) list list \<Rightarrow> dict list list" where
  "api_restarts str followers_file [] = []"
| "api_restarts str followers_file (pages # runs) =
     (let written = api_cmd_followers str followers_file pages
      in written @ api_restarts str
                     (if written = [] then followers_file else Some (last written)) runs)"

text \<open>
  Restarts of \<^verbatim>\<open>cmd_scrape\<close>: each run meets its own backend and starts from the raw
  file as the run before left it.
\<close>

fun scrape_restarts ::
  "(nat \<Rightarrow> string list \<Rightarrow> call_outcome) list \<Rightarrow> string list \<Rightarrow> int \<Rightarrow> dict list option \<Rightarrow>
   error + dict list option" where
  "scrape_restarts [] all_usernames batch_size raw_file = Inr raw_file"
| "scrape_restarts (backend # backends) all_usernames batch_size raw_file =
     (case scrape_batches backend all_usernames batch_size raw_file of
        Inl e \<Rightarrow> Inl e
      | Inr (raw_file', sub) \<Rightarrow> scrape_restarts backends all_usernames batch_size raw_file')"

text \<open>
  The conditions of the properties. A store of profiles is well keyed when its records
  have pairwise different usernames, each a non-empty string. A backend is faithful
  when a run returns records for usernames of the batch only and, for a batch without
  duplicates, at most one record for a username.
\<close>

definition well_keyed :: "dict list option \<Rightarrow> bool" where
  "well_keyed raw_file \<longleftrightarrow>
     (case raw_file of
        None \<Rightarrow> True
      | Some data \<Rightarrow>
          distinct (map (\<lambda>r. get r ''username'') data)
          \<and> (\<forall>r \<in> set data. \<exists>s. get r ''username'' = JStr s \<and> s \<noteq> []))"

definition faithful :: "(nat \<Rightarrow> string list \<Rightarrow> call_outcome) \<Rightarrow> bool" where
  "faithful backend \<longleftrightarrow>
     (\<forall>k batch status items. backend k batch = Run status items \<longrightarrow>
        (distinct batch \<longrightarrow> distinct (map (\<lambda>r. get r ''username'') items))
        \<and> (\<forall>r \<in> set items. \<exists>u \<in> set batch. get r ''username'' = JStr u))"

text \<open>
  For concrete runs: \<^verbatim>\<open>str\<close> on the values met there (strings, integers, None and
  the booleans), and two pages of followers.
\<close>

definition py_str :: "json \<Rightarrow> string" where
  "py_str v =
     (case v of
        JStr s \<Rightarrow> s
      | JInt n \<Rightarrow> (if n < 0 then CHR ''-'' # show_nat (nat (- n)) else show_nat (nat n))
      | JNull \<Rightarrow> ''None''
      | JBool b \<Rightarrow> (if b then ''True'' else ''False'')
      | _ \<Rightarrow> ''?'')"

definition pages_example :: "(error + dict) list" where
  "pages_example =
     [Inr [(''users'', JList [JObj [(''pk'', JInt 7), (''username'', JStr ''amy'')],
                              JObj [(''pk'', JStr ''8''), (''username'', JStr ''bob'')]]),
           (''next_max_id'', JStr ''abc'')],
      Inr [(''users'', JList [JObj [(''pk_id'', JStr ''7''), (''username'', JStr ''amy2'')],
                              JObj [(''username'', JStr ''nobody'')]])]]"

text \<open>
  The invariant of the dict \<^verbatim>\<open>collected\<close>: its keys are pairwise different, and
  each record is stored under the string of its own identifier.
\<close>

definition keyed :: "(json \<Rightarrow> string) \<Rightarrow> (string \<times> dict) list \<Rightarrow> bool" where
  "keyed str coll \<longleftrightarrow>
     distinct (map fst coll) \<and> (\<forall>(k, r) \<in> set coll. str (get r ''ig_user_id'') = k)"

section \<open>Properties of batch partitioning\<close>

lemma slice_pos: "0 < b \<Longrightarrow> slice xs i (int i + int b) = take b (drop i xs)"
proof -
  assume b: "0 < b"
  show ?thesis
  proof (cases "int i + int b \<le> int (length xs)")
    case True
    then have "nat (int i + int b) - i = b" by simp
    with True b show ?thesis by (simp add: slice_def Let_def min_def)
  next
    case False
    then have "length (drop i xs) \<le> b" by simp
    moreover have "length (drop i xs) \<le> nat (int (length xs)) - i" by simp
    ultimately show ?thesis using False b by (simp add: slice_def Let_def min_def)
  qed
qed

lemma concat_range3:
  "0 < b \<Longrightarrow> concat (map (\<lambda>i. take b (drop i xs)) (range3 i (length xs) b)) = drop i xs"
proof (induction i "length xs" b rule: range3.induct)
  case (1 i step)
  show ?case
  proof (cases "length xs \<le> i")
    case True
    then show ?thesis by (simp add: range3.simps)
  next
    case False
    with 1 have "concat (map (\<lambda>i. take step (drop i xs)) (range3 (i + step) (length xs) step)) = drop (i + step) xs"
      by simp
    with False 1 show ?thesis
      apply (subst range3.simps)
      apply (simp add: )
      by (metis add.commute append_take_drop_id drop_drop)
  qed
qed

lemma ceil_step: "0 < (b::nat) \<Longrightarrow> i < n \<Longrightarrow> (n - i + b - 1) div b = Suc ((n - (i + b) + b - 1) div b)"
proof -
  assume b: "0 < b" and lt: "i < n"
  then obtain m where m: "n - i = Suc m" by (metis Suc_diff_Suc)
  have lhs: "(n - i + b - 1) div b = Suc (m div b)"
    using m b by (simp add: div_add_self2)
  show ?thesis
  proof (cases "i + b \<le> n")
    case True
    then have "n - (i + b) + b - 1 = m" using m by simp
    then show ?thesis using lhs by simp
  next
    case False
    then have "n - (i + b) + b - 1 = b - 1" by simp
    moreover have "m < b" using False m by simp
    ultimately show ?thesis using lhs b by simp
  qed
qed

lemma length_range3: "0 < b \<Longrightarrow> length (range3 i n b) = (n - i + b - 1) div b"
proof (induction i n b rule: range3.induct)
  case (1 i n step)
  show ?case
  proof (cases "n \<le> i")
    case True
    then show ?thesis using 1(2) by (simp add: range3.simps)
  next
    case False
    then have "length (range3 (i + step) n step) = (n - (i + step) + step - 1) div step"
      using 1 by simp
    then show ?thesis using False 1(2) ceil_step[of step i n]
      by (subst range3.simps) simp
  qed
qed

lemma nth_range3: "0 < b \<Longrightarrow> k < length (range3 i n b) \<Longrightarrow> range3 i n b ! k = i + k * b"
proof (induction i n b arbitrary: k rule: range3.induct)
  case (1 i n step)
  show ?case
  proof (cases "n \<le> i")
    case True
    then show ?thesis using 1(3) by (simp add: range3.simps)
  next
    case False
    then have eq: "range3 i n step = i # range3 (i + step) n step"
      using 1(2) by (subst range3.simps) simp
    show ?thesis
    proof (cases k)
      case 0
      then show ?thesis using eq by simp
    next
      case (Suc j)
      then have "j < length (range3 (i + step) n step)" using 1(3) eq by simp
      then have "range3 (i + step) n step ! j = i + step + j * step"
        using 1(1)[of j] False 1(2) by simp
      then show ?thesis using eq Suc by simp
    qed
  qed
qed

lemma batches_pos:
  "0 < b \<Longrightarrow> batches b xs = Inr (map (\<lambda>i. take (nat b) (drop i xs)) (range3 0 (length xs) (nat b)))"
proof -
  assume b: "0 < b"
  then have "slice xs i (int i + b) = take (nat b) (drop i xs)" for i
    using slice_pos [of "nat b" xs i] by simp
  with b show ?thesis by (simp add: batches_def py_range_def)
qed

lemma neg_div_neg: "0 < (b::int) \<Longrightarrow> - (- n div b) = (n + b - 1) div b"
proof -
  assume b: "0 < b"
  define q where "q = n div b"
  define r where "r = n mod b"
  have n: "n = q * b + r" by (simp add: q_def r_def)
  have r: "0 \<le> r" "r < b" using b by (simp_all add: r_def)
  have l: "- (- n div b) = (if r = 0 then q else q + 1)"
    using b by (simp add: zdiv_zminus1_eq_if q_def r_def)
  have "n + b - 1 = q * b + (r + b - 1)" using n by simp
  then have "(n + b - 1) div b = q + (r + b - 1) div b"
    using b by (metis div_mult_self3 less_irrefl)
  moreover have "(r + b - 1) div b = (if r = 0 then 0 else 1)"
  proof (cases "r = 0")
    case True
    then show ?thesis using b by (simp add: div_pos_pos_trivial)
  next
    case False
    then have e: "r + b - 1 = (r - 1) + b" and s: "0 \<le> r - 1" "r - 1 < b" using r by simp_all
    have "(r + b - 1) div b = (r - 1 + b) div b" by (simp only: e)
    also have "\<dots> = (r - 1) div b + 1" using b by simp
    also have "(r - 1) div b = 0" using s by (simp add: div_pos_pos_trivial)
    finally show ?thesis using False by simp
  qed
  ultimately show ?thesis using l by simp
qed

lemma ceil_index_bound: "0 < (c::nat) \<Longrightarrow> k < (n + c - 1) div c \<Longrightarrow> k * c < n"
proof -
  assume c: "0 < c" and k: "k < (n + c - 1) div c"
  then have "Suc k \<le> (n + c - 1) div c" by simp
  then have "Suc k * c \<le> n + c - 1" using c by (simp only: less_eq_div_iff_mult_less_eq)
  then show ?thesis using c by simp
qed

lemma ceiling_div_nat:
  "0 < b \<Longrightarrow> \<lceil>real n / real b\<rceil> = int ((n + b - 1) div b)"
proof -
  assume b: "0 < b"
  have "\<lceil>real n / real b\<rceil> = \<lceil>of_int (int n) / (of_int (int b) :: real)\<rceil>" by simp
  also have "\<dots> = - (- int n div int b)" by (rule ceiling_divide_eq_div)
  also have "\<dots> = (int n + int b - 1) div int b"
    using b neg_div_neg [of "int b" "int n"] by simp
  also have "\<dots> = int ((n + b - 1) div b)"
    using b by (simp add: zdiv_int of_nat_diff)
  finally show ?thesis .
qed

text \<open>
  C1. For a positive batch size \<open>b\<close> and any list \<open>xs\<close> of \<open>N\<close> remaining work units the
  loop produces \<open>ceil(N / b)\<close> batches, which is also the number \<open>total_batches\<close>
  prints; batch \<open>k\<close> is the contiguous run of at most \<open>b\<close> units starting at position
  \<open>k * b\<close>, no batch is empty, and the batches concatenated in order are \<open>xs\<close> itself:
  nothing is dropped, reordered or duplicated.
\<close>

theorem batch_partition_coverage:
  assumes "0 < b"
  shows "\<exists>bs. batches b xs = Inr bs
           \<and> concat bs = xs
           \<and> int (length bs) = \<lceil>real (length xs) / real_of_int b\<rceil>
           \<and> total_batches (length xs) b = Inr (int (length bs))
           \<and> (\<forall>k < length bs. bs ! k = take (nat b) (drop (k * nat b) xs) \<and> bs ! k \<noteq> [])"
proof -
  define c where "c = nat b"
  define bs where "bs = map (\<lambda>i. take c (drop i xs)) (range3 0 (length xs) c)"
  have c: "0 < c" "b = int c" using assms by (simp_all add: c_def)
  have eq: "batches b xs = Inr bs"
    using assms by (simp add: batches_pos bs_def c_def)
  have cat: "concat bs = xs"
    using concat_range3 [of c xs 0] c by (simp add: bs_def)
  have len: "length bs = (length xs + c - 1) div c"
    using length_range3 [of c 0 "length xs"] c by (simp add: bs_def)
  have ceil: "int (length bs) = \<lceil>real (length xs) / real_of_int b\<rceil>"
    using ceiling_div_nat [of c "length xs"] c len by simp
  have tot: "total_batches (length xs) b = Inr (int (length bs))"
    using c len by (simp add: total_batches_def zdiv_int of_nat_diff)
  have nth: "bs ! k = take c (drop (k * c) xs) \<and> bs ! k \<noteq> []" if "k < length bs" for k
  proof -
    from that have k: "k < length (range3 0 (length xs) c)" by (simp add: bs_def)
    then have st: "range3 0 (length xs) c ! k = k * c"
      using nth_range3 [of c k 0 "length xs"] c by simp
    then have a: "bs ! k = take c (drop (k * c) xs)" using k by (simp add: bs_def)
    have "k < (length xs + c - 1) div c" using that len by simp
    then have "k * c < length xs"
      using c ceil_index_bound [of c k "length xs"] by simp
    then show ?thesis using a c by simp
  qed
  then have all: "\<forall>k < length bs. bs ! k = take (nat b) (drop (k * nat b) xs) \<and> bs ! k \<noteq> []"
    unfolding c_def by blast
  from eq cat ceil tot all show ?thesis by blast
qed

theorem batch_partition_coverage_witness:
  "batches 3 [1, 2, 3, 4, 5, 6, 7 :: nat] = Inr [[1, 2, 3], [4, 5, 6], [7]]
   \<and> total_batches 7 3 = Inr 3"
  using batch_partition_coverage [of 3 "[1, 2, 3, 4, 5, 6, 7 :: nat]"]
  by (simp add: batches_def py_range_def range3.simps slice_def total_batches_def)

section \<open>Properties of the resume tracker\<close>

lemma remaining_loop_filter:
  "remaining_loop us D acc = acc @ filter (\<lambda>u. JStr u \<notin> D) us"
  by (induction us arbitrary: acc) simp_all

lemma enrich_remaining_loop_filter:
  "\<forall>f \<in> set fs. map_of f ''ig_user_id'' \<noteq> None \<Longrightarrow>
   enrich_remaining_loop str fs ids acc =
     Inr (acc @ filter (\<lambda>f. str (get f ''ig_user_id'') \<notin> ids) fs)"
  by (induction fs arbitrary: acc) (auto simp: getitem_def get_def)

lemma enrich_remaining_loop_KeyError:
  "\<exists>f \<in> set fs. map_of f ''ig_user_id'' = None \<Longrightarrow>
   enrich_remaining_loop str fs ids acc = Inl KeyError"
proof (induction fs arbitrary: acc)
  case Nil
  then show ?case by simp
next
  case (Cons f fs)
  show ?case
  proof (cases "map_of f ''ig_user_id''")
    case None
    then show ?thesis by (simp add: getitem_def)
  next
    case (Some v)
    with Cons.prems have "\<exists>f \<in> set fs. map_of f ''ig_user_id'' = None" by auto
    then have "enrich_remaining_loop str fs ids acc' = Inl KeyError" for acc'
      by (rule Cons.IH)
    with Some show ?thesis by (simp add: getitem_def)
  qed
qed

text \<open>
  C2. The remaining list is the sublist of the work units whose identifier is not in
  the done set, in the order of the work-unit list: \<open>filter\<close> keeps exactly those
  elements, each as often as it occurs and in its place. This holds for the usernames
  of \<^verbatim>\<open>cmd_scrape\<close> and for the follower records of \<^verbatim>\<open>cmd_enrich\<close>, which are keyed by
  \<^verbatim>\<open>str(f["ig_user_id"])\<close> and raise KeyError when a follower has no such key.
  Scenario: when the store holds a record for \<open>u1\<close> and one for \<open>u3\<close> (non-empty
  usernames, different from \<open>u2\<close> and \<open>u4\<close>), the remaining list of
  \<open>[u1, u2, u3, u4]\<close> is \<open>[u2, u4]\<close>.
\<close>

theorem resume_filtering:
  "remaining W D = filter (\<lambda>u. JStr u \<notin> D) W
   \<and> enrich_remaining str fs ids =
        (if \<forall>f \<in> set fs. map_of f ''ig_user_id'' \<noteq> None
         then Inr (filter (\<lambda>f. str (get f ''ig_user_id'') \<notin> ids) fs)
         else Inl KeyError)
   \<and> (get r1 ''username'' = JStr u1 \<and> get r3 ''username'' = JStr u3
        \<and> u1 \<noteq> [] \<and> u3 \<noteq> [] \<and> u2 \<notin> {u1, u3} \<and> u4 \<notin> {u1, u3} \<longrightarrow>
        (\<exists>D'. load_already_scraped (Some [r1, r3]) = Inr D'
              \<and> remaining [u1, u2, u3, u4] D' = [u2, u4]))"
proof (intro conjI)
  show "remaining W D = filter (\<lambda>u. JStr u \<notin> D) W"
    by (simp add: remaining_def remaining_loop_filter)
  show "enrich_remaining str fs ids =
        (if \<forall>f \<in> set fs. map_of f ''ig_user_id'' \<noteq> None
         then Inr (filter (\<lambda>f. str (get f ''ig_user_id'') \<notin> ids) fs)
         else Inl KeyError)"
    using enrich_remaining_loop_filter [of fs str ids "[]"]
      enrich_remaining_loop_KeyError [of fs str ids "[]"]
    by (auto simp: enrich_remaining_def)
  show "get r1 ''username'' = JStr u1 \<and> get r3 ''username'' = JStr u3
        \<and> u1 \<noteq> [] \<and> u3 \<noteq> [] \<and> u2 \<notin> {u1, u3} \<and> u4 \<notin> {u1, u3} \<longrightarrow>
        (\<exists>D'. load_already_scraped (Some [r1, r3]) = Inr D'
              \<and> remaining [u1, u2, u3, u4] D' = [u2, u4])"
    by (auto simp: remaining_def remaining_loop_filter load_already_scraped_def Let_def)
qed

theorem resume_filtering_witness:
  "load_already_scraped (Some [[(''username'', JStr ''u1''), (''id'', JInt 1)],
                               [(''username'', JStr ''u3'')]])
     = Inr {JStr ''u1'', JStr ''u3''}
   \<and> remaining [''u1'', ''u2'', ''u3'', ''u4''] {JStr ''u1'', JStr ''u3''} = [''u2'', ''u4'']
   \<and> enrich_remaining (\<lambda>v. case v of JStr s \<Rightarrow> s | _ \<Rightarrow> ''?'')
        [[(''ig_user_id'', JStr ''7''), (''handle'', JStr ''a'')],
         [(''ig_user_id'', JStr ''8''), (''handle'', JStr ''b'')]] {''7''}
      = Inr [[(''ig_user_id'', JStr ''8''), (''handle'', JStr ''b'')]]"
  using resume_filtering [of "[''u1'', ''u2'', ''u3'', ''u4'']" "{JStr ''u1'', JStr ''u3''}"
      "\<lambda>v. case v of JStr s \<Rightarrow> s | _ \<Rightarrow> ''?''"
      "[[(''ig_user_id'', JStr ''7''), (''handle'', JStr ''a'')],
        [(''ig_user_id'', JStr ''8''), (''handle'', JStr ''b'')]]"
      "{''7''}"
      "[(''username'', JStr ''u1''), (''id'', JInt 1)]" "''u1''"
      "[(''username'', JStr ''u3'')]" "''u3''" "''u2''" "''u4''"]
  by (auto simp: get_def load_already_scraped_def Let_def)

section \<open>Properties of api\_get\<close>

lemma loop_requests_le:
  "requests (api_get_loop w e s m as) \<le> length as"
  by (induction as) (auto simp: finish_def sleep_then_def split: response.splits)

lemma loop_waits_ge:
  assumes mono: "\<And>a b. a \<le> b \<Longrightarrow> e a \<le> e b" and ew: "\<And>a. e a \<le> w a"
  shows "\<forall>x \<in> set (waits (api_get_loop w e s m [k ..< n])). e k \<le> x"
proof (induction "n - k" arbitrary: k)
  case 0
  then show ?case by simp
next
  case (Suc d)
  then have lt: "k < n" and d: "d = n - Suc k" by simp_all
  have eq: "[k ..< n] = k # [Suc k ..< n]" using lt by (simp add: upt_conv_Cons)
  have rest: "\<forall>y \<in> set (waits (api_get_loop w e s m [Suc k ..< n])). e k \<le> y"
    using Suc.hyps(1) [OF d] mono [of k "Suc k"] by fastforce
  show ?case
    unfolding eq using rest ew [of k]
    by (auto simp: finish_def sleep_then_def split: response.splits if_splits)
qed

lemma loop_waits_sorted:
  assumes mono: "\<And>a b. a \<le> b \<Longrightarrow> e a \<le> e b" and ew: "\<And>a. e a \<le> w a"
    and we: "\<And>a. w a \<le> e (Suc a)"
  shows "sorted (waits (api_get_loop w e s m [k ..< n]))"
proof (induction "n - k" arbitrary: k)
  case 0
  then show ?case by simp
next
  case (Suc d)
  then have lt: "k < n" and d: "d = n - Suc k" by simp_all
  have eq: "[k ..< n] = k # [Suc k ..< n]" using lt by (simp add: upt_conv_Cons)
  have ge: "y \<in> set (waits (api_get_loop w e s m [Suc k ..< n])) \<Longrightarrow> e (Suc k) \<le> y" for y
    using loop_waits_ge [of e w s m "Suc k" n] mono ew by blast
  have s: "sorted (waits (api_get_loop w e s m [Suc k ..< n]))"
    using Suc.hyps(1) [OF d] .
  have a: "y \<in> set (waits (api_get_loop w e s m [Suc k ..< n])) \<Longrightarrow> w k \<le> y" for y
    using ge [of y] we [of k] by simp
  have b: "y \<in> set (waits (api_get_loop w e s m [Suc k ..< n])) \<Longrightarrow> e k \<le> y" for y
    using a [of y] ew [of k] by simp
  show ?case
    unfolding eq using s a b
    by (auto simp: finish_def sleep_then_def split: response.splits)
qed

lemma loop_waits_range:
  "x \<in> set (waits (api_get_loop w e s m as)) \<Longrightarrow> \<exists>a \<in> set as. x = w a \<or> x = e a"
  by (induction as) (auto simp: finish_def sleep_then_def split: response.splits if_splits)

lemma loop_all_429:
  "\<forall>a \<in> set as. \<exists>body. s a = Resp 429 body \<Longrightarrow>
   api_get_loop w e s m as = \<lparr>result = Inr (JObj []), waits = map w as, requests = length as\<rparr>"
  by (induction as) (auto simp: sleep_then_def)

lemma loop_401:
  "s a = Resp 401 body \<Longrightarrow> k \<le> a \<Longrightarrow> a - k < requests (api_get_loop w e s m [k ..< n]) \<Longrightarrow>
   result (api_get_loop w e s m [k ..< n]) = Inl (SystemExit 1)
   \<and> requests (api_get_loop w e s m [k ..< n]) = Suc (a - k)
   \<and> length (waits (api_get_loop w e s m [k ..< n])) = a - k"
proof (induction "a - k" arbitrary: k)
  case 0
  then have ak: "a = k" by simp
  have "k < n" using 0 by (cases "k < n") simp_all
  then have eq: "[k ..< n] = k # [Suc k ..< n]" by (simp add: upt_conv_Cons)
  show ?case unfolding eq using 0(2) ak by (simp add: finish_def)
next
  case (Suc d)
  then have d: "d = a - Suc k" and le: "Suc k \<le> a" by simp_all
  have "k < n" using Suc.prems by (cases "k < n") simp_all
  then have eq: "[k ..< n] = k # [Suc k ..< n]" by (simp add: upt_conv_Cons)
  have ne: "requests (api_get_loop w e s m [k ..< n]) \<noteq> 1"
    using Suc.prems(3) Suc.hyps(2) by simp
  have "a - Suc k < requests (api_get_loop w e s m [Suc k ..< n])"
    using Suc.prems(3) Suc.hyps(2) unfolding eq
    by (auto simp: finish_def sleep_then_def split: response.splits if_splits)
  from Suc.hyps(1) [OF d Suc.prems(1) le this] Suc.hyps(2) ne show ?case
    unfolding eq
    by (auto simp: finish_def sleep_then_def split: response.splits if_splits)
qed

lemma export_waits:
  "sorted (waits (export_api_get s m))"
  "\<forall>x \<in> set (waits (export_api_get s m)). x \<le> 900"
  "int (requests (export_api_get s m)) \<le> max 0 m"
proof -
  let ?w = "\<lambda>a::nat. min (60 * 2 ^ a) (900::int)" and ?e = "\<lambda>a::nat. min (30 * 2 ^ a) (900::int)"
  have mono: "?e a \<le> ?e b" if "a \<le> b" for a b
  proof -
    have "(2::int) ^ a \<le> 2 ^ b" using that by (simp add: power_increasing)
    then have "(30::int) * 2 ^ a \<le> 30 * 2 ^ b" by (rule mult_left_mono) simp
    then show ?thesis by (rule min.mono) simp
  qed
  have ew: "?e a \<le> ?w a" for a by (simp add: min_def)
  have we: "?w a \<le> ?e (Suc a)" for a by (simp add: min_def)
  show "sorted (waits (export_api_get s m))"
    unfolding export_api_get_def
    using loop_waits_sorted [of ?e ?w s m 0 "nat m", OF mono ew we] by simp
  show "\<forall>x \<in> set (waits (export_api_get s m)). x \<le> 900"
    unfolding export_api_get_def
    using loop_waits_range [of _ ?w ?e s m "[0 ..< nat m]"] by fastforce
  show "int (requests (export_api_get s m)) \<le> max 0 m"
    unfolding export_api_get_def
    using loop_requests_le [of ?w ?e s m "[0 ..< nat m]"] by simp
qed

lemma ig_waits:
  "sorted (waits (ig_api_get s m))"
  "\<forall>x \<in> set (waits (ig_api_get s m)). x \<le> 60 * 2 ^ (nat m - 1)"
  "int (requests (ig_api_get s m)) \<le> max 0 m"
proof -
  let ?w = "\<lambda>a::nat. 60 * 2 ^ a :: int" and ?e = "\<lambda>a::nat. 30 * 2 ^ a :: int"
  have mono: "?e a \<le> ?e b" if "a \<le> b" for a b
    using that by (simp add: power_increasing)
  have ew: "?e a \<le> ?w a" for a by simp
  have we: "?w a \<le> ?e (Suc a)" for a by simp
  show "sorted (waits (ig_api_get s m))"
    unfolding ig_api_get_def
    using loop_waits_sorted [of ?e ?w s m 0 "nat m", OF mono ew we] by simp
  show "\<forall>x \<in> set (waits (ig_api_get s m)). x \<le> 60 * 2 ^ (nat m - 1)"
  proof
    fix x assume "x \<in> set (waits (ig_api_get s m))"
    then obtain a where a: "a < nat m" and x: "x = ?w a \<or> x = ?e a"
      unfolding ig_api_get_def
      using loop_waits_range [of x ?w ?e s m "[0 ..< nat m]"] by auto
    then have "(2::int) ^ a \<le> 2 ^ (nat m - 1)" by (simp add: power_increasing)
    then have "(60::int) * 2 ^ a \<le> 60 * 2 ^ (nat m - 1)" by (rule mult_left_mono) simp
    moreover have "(30::int) * 2 ^ a \<le> 60 * 2 ^ a" by simp
    ultimately show "x \<le> 60 * 2 ^ (nat m - 1)" using x by linarith
  qed
  show "int (requests (ig_api_get s m)) \<le> max 0 m"
    unfolding ig_api_get_def
    using loop_requests_le [of ?w ?e s m "[0 ..< nat m]"] by simp
qed

lemma ig_waits_small:
  assumes "m \<le> 4"
  shows "\<forall>x \<in> set (waits (ig_api_get s m)). x \<le> 900"
proof
  fix x assume "x \<in> set (waits (ig_api_get s m))"
  then have x: "x \<le> 60 * 2 ^ (nat m - 1)" using ig_waits(2) by blast
  have "nat m - 1 \<le> 3" using assms by simp
  then have "(2::int) ^ (nat m - 1) \<le> 2 ^ 3" by (rule power_increasing) simp
  with x show "x \<le> 900" by simp
qed

text \<open>
  C6. In both copies of \<^verbatim>\<open>api_get\<close> the delays slept during one call form a
  non-decreasing sequence, whatever the service answers, and at most \<^verbatim>\<open>max_retries\<close>
  requests are sent. In export\_scraper.py every delay is at most 900 seconds, and a
  run of rate-limit signals from the first attempt on is answered with the delays
  \<open>min (60 * 2^k) 900\<close>. In ig\_api\_scraper.py the delays are \<open>60 * 2^k\<close>, at most
  \<open>60 * 2^(max_retries - 1)\<close>: that is at most 900 seconds for every \<^verbatim>\<open>max_retries\<close>
  up to 4, and every call of the function in the program leaves \<^verbatim>\<open>max_retries\<close> at
  its default 3, where the delays are at most 240 seconds and at most 3 requests are
  sent.
\<close>

theorem backoff_monotone_bounded:
  "sorted (waits (export_api_get s m))
   \<and> (\<forall>x \<in> set (waits (export_api_get s m)). x \<le> 900)
   \<and> int (requests (export_api_get s m)) \<le> max 0 m
   \<and> sorted (waits (ig_api_get s m))
   \<and> (\<forall>x \<in> set (waits (ig_api_get s m)). x \<le> 60 * 2 ^ (nat m - 1))
   \<and> (m \<le> 4 \<longrightarrow> (\<forall>x \<in> set (waits (ig_api_get s m)). x \<le> 900))
   \<and> int (requests (ig_api_get s m)) \<le> max 0 m
   \<and> ((\<forall>a < nat m. \<exists>body. s a = Resp 429 body) \<longrightarrow>
        waits (export_api_get s m) = map (\<lambda>k. min (60 * 2 ^ k) 900) [0 ..< nat m]
        \<and> waits (ig_api_get s m) = map (\<lambda>k. 60 * 2 ^ k) [0 ..< nat m])
   \<and> sorted (waits (ig_api_get s 3))
   \<and> (\<forall>x \<in> set (waits (ig_api_get s 3)). x \<le> 240 \<and> x \<le> 900)
   \<and> requests (ig_api_get s 3) \<le> 3
   \<and> requests (export_api_get s 8) \<le> 8"
proof -
  have a: "waits (export_api_get s m) = map (\<lambda>k. min (60 * 2 ^ k) 900) [0 ..< nat m]
        \<and> waits (ig_api_get s m) = map (\<lambda>k. 60 * 2 ^ k) [0 ..< nat m]"
    if "\<forall>a < nat m. \<exists>body. s a = Resp 429 body"
  proof -
    from that have "\<forall>a \<in> set [0 ..< nat m]. \<exists>body. s a = Resp 429 body" by simp
    then show ?thesis
      unfolding export_api_get_def ig_api_get_def by (simp add: loop_all_429)
  qed
  have d: "\<forall>x \<in> set (waits (ig_api_get s 3)). x \<le> 240 \<and> x \<le> 900"
    using ig_waits(2) [of s 3] by fastforce
  have r3: "requests (ig_api_get s 3) \<le> 3" using ig_waits(3) [of s 3] by simp
  have r8: "requests (export_api_get s 8) \<le> 8" using export_waits(3) [of s 8] by simp
  show ?thesis
  proof (intro conjI)
    show "sorted (waits (export_api_get s m))" by (rule export_waits(1))
    show "\<forall>x \<in> set (waits (export_api_get s m)). x \<le> 900" by (rule export_waits(2))
    show "int (requests (export_api_get s m)) \<le> max 0 m" by (rule export_waits(3))
    show "sorted (waits (ig_api_get s m))" by (rule ig_waits(1))
    show "\<forall>x \<in> set (waits (ig_api_get s m)). x \<le> 60 * 2 ^ (nat m - 1)"
      by (rule ig_waits(2))
    show "m \<le> 4 \<longrightarrow> (\<forall>x \<in> set (waits (ig_api_get s m)). x \<le> 900)"
      using ig_waits_small [of m s] by blast
    show "int (requests (ig_api_get s m)) \<le> max 0 m" by (rule ig_waits(3))
    show "(\<forall>a < nat m. \<exists>body. s a = Resp 429 body) \<longrightarrow>
        waits (export_api_get s m) = map (\<lambda>k. min (60 * 2 ^ k) 900) [0 ..< nat m]
        \<and> waits (ig_api_get s m) = map (\<lambda>k. 60 * 2 ^ k) [0 ..< nat m]"
      using a by blast
    show "sorted (waits (ig_api_get s 3))" by (rule ig_waits(1))
    show "\<forall>x \<in> set (waits (ig_api_get s 3)). x \<le> 240 \<and> x \<le> 900" by (rule d)
    show "requests (ig_api_get s 3) \<le> 3" by (rule r3)
    show "requests (export_api_get s 8) \<le> 8" by (rule r8)
  qed
qed

theorem backoff_monotone_bounded_witness:
  "waits (export_api_get always_429 8) = [60, 120, 240, 480, 900, 900, 900, 900]
   \<and> sorted (waits (export_api_get always_429 8))
   \<and> requests (export_api_get always_429 8) = 8
   \<and> waits (ig_api_get always_429 3) = [60, 120, 240]
   \<and> sorted (waits (ig_api_get always_429 3))
   \<and> requests (ig_api_get always_429 3) = 3
   \<and> waits (ig_api_get (replay [Resp 429 None, Raised, Resp 429 None]) 3) = [60, 60, 240]"
proof -
  have e: "export_api_get always_429 8
           = \<lparr>result = Inr (JObj []), waits = [60, 120, 240, 480, 900, 900, 900, 900], requests = 8\<rparr>"
    by code_simp
  have i: "ig_api_get always_429 3 = \<lparr>result = Inr (JObj []), waits = [60, 120, 240], requests = 3\<rparr>"
    by code_simp
  have m: "waits (ig_api_get (replay [Resp 429 None, Raised, Resp 429 None]) 3) = [60, 60, 240]"
    by code_simp
  have h8: "\<forall>a < nat 8. \<exists>body. always_429 a = Resp 429 body"
    and h3: "\<forall>a < nat 3. \<exists>body. always_429 a = Resp 429 body"
    by (simp_all add: always_429_def)
  have le: "(3::int) \<le> 4" by simp
  have s8: "sorted (waits (export_api_get always_429 8))"
    using backoff_monotone_bounded [of always_429 8] by (elim conjE)
  have "(\<forall>a < nat 8. \<exists>body. always_429 a = Resp 429 body) \<longrightarrow>
        waits (export_api_get always_429 8) = map (\<lambda>k. min (60 * 2 ^ k) 900) [0 ..< nat 8]
        \<and> waits (ig_api_get always_429 8) = map (\<lambda>k. 60 * 2 ^ k) [0 ..< nat 8]"
    using backoff_monotone_bounded [of always_429 8] by (elim conjE)
  then have w8: "waits (export_api_get always_429 8)
                 = map (\<lambda>k. min (60 * 2 ^ k) 900) [0 ..< nat 8]"
    using h8 by (elim impE conjE)
  have s3: "sorted (waits (ig_api_get always_429 3))"
    using backoff_monotone_bounded [of always_429 3] by (elim conjE)
  have "3 \<le> (4::int) \<longrightarrow> (\<forall>x \<in> set (waits (ig_api_get always_429 3)). x \<le> 900)"
    using backoff_monotone_bounded [of always_429 3] by (elim conjE)
  then have c3: "\<forall>x \<in> set (waits (ig_api_get always_429 3)). x \<le> 900"
    using le by (rule mp)
  have "(\<forall>a < nat 3. \<exists>body. always_429 a = Resp 429 body) \<longrightarrow>
        waits (export_api_get always_429 3) = map (\<lambda>k. min (60 * 2 ^ k) 900) [0 ..< nat 3]
        \<and> waits (ig_api_get always_429 3) = map (\<lambda>k. 60 * 2 ^ k) [0 ..< nat 3]"
    using backoff_monotone_bounded [of always_429 3] by (elim conjE)
  then have w3: "waits (ig_api_get always_429 3) = map (\<lambda>k. 60 * 2 ^ k) [0 ..< nat 3]"
    using h3 by (elim impE conjE)
  have v8: "waits (export_api_get always_429 8) = [60, 120, 240, 480, 900, 900, 900, 900]"
    by (simp add: e)
  have v3: "waits (ig_api_get always_429 3) = [60, 120, 240]"
    by (simp add: i)
  have r8: "requests (export_api_get always_429 8) = 8" by (simp add: e)
  have r3: "requests (ig_api_get always_429 3) = 3" by (simp add: i)
  from v8 s8 r8 v3 s3 r3 m show ?thesis by (intro conjI)
qed

text \<open>
  C7. When every one of the \<^verbatim>\<open>max_retries\<close> attempts is answered with 429, both copies
  of \<^verbatim>\<open>api_get\<close> sleep after the last attempt as well, leave the loop and return the
  empty dict of the final \<^verbatim>\<open>return {}\<close>, the value that a 404 gives: no error
  reaches the caller.
\<close>

theorem rate_limit_exhaustion_returns_empty:
  "export_api_get always_429 8
     = \<lparr>result = Inr (JObj []), waits = [60, 120, 240, 480, 900, 900, 900, 900], requests = 8\<rparr>
   \<and> ig_api_get always_429 3
     = \<lparr>result = Inr (JObj []), waits = [60, 120, 240], requests = 3\<rparr>
   \<and> export_api_get (replay [Resp 404 None]) 8 = \<lparr>result = Inr (JObj []), waits = [], requests = 1\<rparr>"
  by code_simp

text \<open>
  C8. When the request of attempt \<open>a\<close> is sent (more than \<open>a\<close> requests are sent in
  all) and is answered with 401, the call ends there with \<^verbatim>\<open>sys.exit(1)\<close>: the result
  is the exit, the request of attempt \<open>a\<close> is the last one sent, and nothing is slept
  after it (the \<open>a\<close> delays are those of the attempts before). This does not depend on
  \<^verbatim>\<open>max_retries\<close> nor on the attempts that are left.
\<close>

theorem auth_failure_immediately_fatal:
  assumes "s a = Resp 401 body"
  shows "(a < requests (export_api_get s m) \<longrightarrow>
            result (export_api_get s m) = Inl (SystemExit 1)
            \<and> requests (export_api_get s m) = Suc a
            \<and> length (waits (export_api_get s m)) = a)
         \<and> (a < requests (ig_api_get s m) \<longrightarrow>
            result (ig_api_get s m) = Inl (SystemExit 1)
            \<and> requests (ig_api_get s m) = Suc a
            \<and> length (waits (ig_api_get s m)) = a)
         \<and> api_get_loop w e s m (a # rest) = finish (Inl (SystemExit 1))"
proof (intro conjI impI)
  assume "a < requests (export_api_get s m)"
  then have r: "a - 0 < requests (api_get_loop (\<lambda>k. min (60 * 2 ^ k) 900)
      (\<lambda>k. min (30 * 2 ^ k) 900) s m [0 ..< nat m])"
    by (simp add: export_api_get_def)
  note l = loop_401 [OF assms _ r]
  show "result (export_api_get s m) = Inl (SystemExit 1)"
    using l by (simp add: export_api_get_def)
  show "requests (export_api_get s m) = Suc a"
    using l by (simp add: export_api_get_def)
  show "length (waits (export_api_get s m)) = a"
    using l by (simp add: export_api_get_def)
next
  assume "a < requests (ig_api_get s m)"
  then have r: "a - 0 < requests (api_get_loop (\<lambda>k. 60 * 2 ^ k) (\<lambda>k. 30 * 2 ^ k) s m [0 ..< nat m])"
    by (simp add: ig_api_get_def)
  note l = loop_401 [OF assms _ r]
  show "result (ig_api_get s m) = Inl (SystemExit 1)"
    using l by (simp add: ig_api_get_def)
  show "requests (ig_api_get s m) = Suc a"
    using l by (simp add: ig_api_get_def)
  show "length (waits (ig_api_get s m)) = a"
    using l by (simp add: ig_api_get_def)
next
  show "api_get_loop w e s m (a # rest) = finish (Inl (SystemExit 1))"
    using assms by simp
qed

theorem auth_failure_immediately_fatal_witness:
  "replay [Resp 429 None, Raised, Resp 401 None] 2 = Resp 401 None
   \<and> export_api_get (replay [Resp 429 None, Raised, Resp 401 None]) 8
       = \<lparr>result = Inl (SystemExit 1), waits = [60, 60], requests = 3\<rparr>
   \<and> ig_api_get (replay [Resp 429 None, Raised, Resp 401 None]) 3
       = \<lparr>result = Inl (SystemExit 1), waits = [60, 60], requests = 3\<rparr>"
proof -
  have h: "replay [Resp 429 None, Raised, Resp 401 None] 2 = Resp 401 None"
    by (simp add: replay_def)
  have e: "export_api_get (replay [Resp 429 None, Raised, Resp 401 None]) 8
       = \<lparr>result = Inl (SystemExit 1), waits = [60, 60], requests = 3\<rparr>"
    by code_simp
  have i: "ig_api_get (replay [Resp 429 None, Raised, Resp 401 None]) 3
       = \<lparr>result = Inl (SystemExit 1), waits = [60, 60], requests = 3\<rparr>"
    by code_simp
  show ?thesis
    using auth_failure_immediately_fatal
      [of "replay [Resp 429 None, Raised, Resp 401 None]" 2 None 8] h e i
    by simp
qed

section \<open>Properties of the followers file\<close>

lemma writes_ok_save: "writes_ok L st \<Longrightarrow> writes_ok L (save st)"
  by (auto simp: writes_ok_def save_def)

lemma follower_loop_writes_ok:
  "writes_ok L st \<Longrightarrow> writes_ok L (snd (follower_loop evs st))"
proof (induction evs st rule: follower_loop.induct)
  case (2 username evs st)
  show ?case
  proof (cases "username \<in> collected st")
    case True
    with 2 show ?thesis by simp
  next
    case False
    define st1 where "st1 = st\<lparr>collected := insert username (collected st), count := count st + 1\<rparr>"
    define st2 where "st2 = (if count st1 mod 100 = 0 then save st1 else st1)"
    have eq: "follower_loop (Follower username # evs) st = follower_loop evs st2"
      using False unfolding st2_def st1_def by (simp add: Let_def)
    have "writes_ok L st1" using "2.prems" by (auto simp: writes_ok_def st1_def)
    then have "writes_ok L st2" by (simp add: st2_def writes_ok_save)
    then have "writes_ok L (snd (follower_loop evs st2))"
      using "2.IH"(2) [OF False st1_def st2_def] by simp
    then show ?thesis unfolding eq .
  qed
qed simp_all

lemma follower_loop_no_crash:
  "OtherException \<notin> set evs \<Longrightarrow> fst (follower_loop evs st) \<noteq> Crashed"
  by (induction evs st rule: follower_loop.induct) (simp_all add: Let_def)

lemma attempts_loop_writes_ok:
  "writes_ok L st \<Longrightarrow> writes_ok L (snd (attempts_loop iters as st))"
proof (induction as arbitrary: st)
  case Nil
  then show ?case by simp
next
  case (Cons a as)
  have i0: "writes_ok L (st\<lparr>count := card (collected st)\<rparr>)"
    using Cons.prems by (simp add: writes_ok_def)
  obtain e st' where r: "follower_loop (iters a) (st\<lparr>count := card (collected st)\<rparr>) = (e, st')"
    by (cases "follower_loop (iters a) (st\<lparr>count := card (collected st)\<rparr>)")
  have i1: "writes_ok L st'" using follower_loop_writes_ok [OF i0, of "iters a"] r by simp
  show ?case
  proof (cases e)
    case Failed
    then show ?thesis using r Cons.IH [OF writes_ok_save [OF i1]] by simp
  qed (use r i1 in simp_all)
qed

lemma attempts_loop_no_crash:
  "\<forall>a \<in> set as. OtherException \<notin> set (iters a) \<Longrightarrow> \<not> fst (attempts_loop iters as st)"
proof (induction as arbitrary: st)
  case Nil
  then show ?case by simp
next
  case (Cons a as)
  obtain e st' where r: "follower_loop (iters a) (st\<lparr>count := card (collected st)\<rparr>) = (e, st')"
    by (cases "follower_loop (iters a) (st\<lparr>count := card (collected st)\<rparr>)")
  have "e \<noteq> Crashed"
    using follower_loop_no_crash [of "iters a" "st\<lparr>count := card (collected st)\<rparr>"] r Cons.prems
    by simp
  then show ?case using r Cons by (cases e) simp_all
qed

lemma follower_loop_spec:
  "finite (collected st) \<Longrightarrow> count st = card (collected st) \<Longrightarrow>
   fst (follower_loop evs st) = ending_of evs
   \<and> collected (snd (follower_loop evs st)) = collected st \<union> set (yielded evs)
   \<and> writes (snd (follower_loop evs st))
       = writes st @ checkpoints (collected st) (yielded evs)"
proof (induction evs st rule: follower_loop.induct)
  case (2 username evs st)
  show ?case
  proof (cases "username \<in> collected st")
    case True
    with 2 show ?thesis by auto
  next
    case False
    define st1 where "st1 = st\<lparr>collected := insert username (collected st), count := count st + 1\<rparr>"
    define st2 where "st2 = (if count st1 mod 100 = 0 then save st1 else st1)"
    have eq: "follower_loop (Follower username # evs) st = follower_loop evs st2"
      using False unfolding st2_def st1_def by (simp add: Let_def)
    have c1: "count st1 = card (insert username (collected st))"
      using False "2.prems" by (simp add: st1_def)
    have col: "collected st2 = insert username (collected st)"
      by (simp add: st2_def st1_def save_def)
    have cnt: "count st2 = card (collected st2)"
      using c1 by (simp add: st2_def st1_def save_def)
    have fin: "finite (collected st2)" using "2.prems"(1) col by simp
    have wr: "writes st2 = writes st
              @ (if card (insert username (collected st)) mod 100 = 0
                 then [sorted_list_of_set (insert username (collected st))] else [])"
      using c1 by (simp add: st2_def st1_def save_def)
    note ih = "2.IH"(2) [OF False st1_def st2_def fin cnt]
    show ?thesis
      unfolding eq using ih False by (simp add: col wr)
  qed
qed simp_all

lemma attempts_loop_spec:
  "finite (collected st) \<Longrightarrow>
   (case attempts_loop iters as st of
      (crashed, st') \<Rightarrow> if crashed then writes st' else writes (save st'))
   = writes st @ expected_writes iters as (collected st)"
proof (induction as arbitrary: st)
  case Nil
  then show ?case by (simp add: save_def)
next
  case (Cons a as)
  define st0 where "st0 = st\<lparr>count := card (collected st)\<rparr>"
  have f0: "finite (collected st0)" "count st0 = card (collected st0)"
    using Cons.prems by (simp_all add: st0_def)
  obtain e st' where r: "follower_loop (iters a) st0 = (e, st')"
    by (cases "follower_loop (iters a) st0")
  have e: "e = ending_of (iters a)"
    and c: "collected st' = collected st \<union> set (yielded (iters a))"
    and w: "writes st' = writes st @ checkpoints (collected st) (yielded (iters a))"
    using follower_loop_spec [OF f0, of "iters a"] r by (simp_all add: st0_def)
  have fin: "finite (collected (save st'))" using c Cons.prems by (simp add: save_def)
  show ?case
  proof (cases e)
    case Failed
    have "(case attempts_loop iters as (save st') of
             (crashed, st'') \<Rightarrow> if crashed then writes st'' else writes (save st''))
          = writes (save st') @ expected_writes iters as (collected (save st'))"
      using Cons.IH [OF fin] .
    then show ?thesis
      using r Failed e c w by (simp add: st0_def [symmetric] save_def)
  qed (use r e c w in \<open>simp_all add: st0_def [symmetric] save_def\<close>)
qed

text \<open>
  C10. Whatever the followers file held and whatever the iterators of the five attempts
  do, the contents that \<^verbatim>\<open>cmd_followers\<close> writes to the followers file are exactly
  the expected ones: at a checkpoint, after a rate-limit error and at the end, the
  usernames collected up to that moment (those loaded from the file and those the
  iterators yielded) as their sorted list. So every content written is sorted, free of
  duplicates and holds every username of the file that was loaded; when the first
  iterator ends without an uncaught exception, a write holds exactly the loaded
  usernames and the usernames it yielded; and when no iterator raises an exception
  that the command does not catch, the final save is made.
\<close>

theorem followers_file_sorted_deduplicated:
  "cmd_followers followers_file iters
     = expected_writes iters [0 ..< 5]
         (case followers_file of None \<Rightarrow> {} | Some names \<Rightarrow> set names)
   \<and> (\<forall>w \<in> set (cmd_followers followers_file iters).
       sorted w \<and> distinct w
       \<and> (\<forall>names. followers_file = Some names \<longrightarrow> set names \<subseteq> set w))
   \<and> ((\<forall>attempt < 5. OtherException \<notin> set (iters attempt)) \<longrightarrow>
        cmd_followers followers_file iters \<noteq> [])
   \<and> (ending_of (iters 0) \<noteq> Crashed \<longrightarrow>
        (\<exists>w \<in> set (cmd_followers followers_file iters).
           w = sorted_list_of_set
                 ((case followers_file of None \<Rightarrow> {} | Some names \<Rightarrow> set names)
                  \<union> set (yielded (iters 0)))
           \<and> set w = (case followers_file of None \<Rightarrow> {} | Some names \<Rightarrow> set names)
                     \<union> set (yielded (iters 0))))"
proof -
  define loaded where "loaded = (case followers_file of None \<Rightarrow> {} | Some names \<Rightarrow> set names)"
  define st0 where "st0 = \<lparr>collected = loaded, count = 0, writes = []\<rparr>"
  obtain crashed st where r: "attempts_loop iters [0 ..< 5] st0 = (crashed, st)"
    by (cases "attempts_loop iters [0 ..< 5] st0")
  have cmd: "cmd_followers followers_file iters = (if crashed then writes st else writes (save st))"
    using r by (simp add: cmd_followers_def loaded_def st0_def Let_def)
  have fl: "finite loaded" by (simp add: loaded_def split: option.splits)
  have spec: "cmd_followers followers_file iters = expected_writes iters [0 ..< 5] loaded"
    using attempts_loop_spec [of st0 iters "[0 ..< 5]"] r fl unfolding cmd
    by (simp add: st0_def)
  have "writes_ok loaded st0" using fl by (simp add: writes_ok_def st0_def)
  then have ok: "writes_ok loaded st"
    using attempts_loop_writes_ok [of loaded st0 iters "[0 ..< 5]"] r by simp
  then have ok': "writes_ok loaded (save st)" by (rule writes_ok_save)
  have base: "\<forall>w \<in> set (cmd_followers followers_file iters).
       sorted w \<and> distinct w \<and> loaded \<subseteq> set w"
    using ok ok' unfolding cmd by (simp add: writes_ok_def)
  have ld: "set names \<subseteq> loaded" if "followers_file = Some names" for names
    using that by (simp add: loaded_def)
  have all: "\<forall>w \<in> set (cmd_followers followers_file iters).
       sorted w \<and> distinct w
       \<and> (\<forall>names. followers_file = Some names \<longrightarrow> set names \<subseteq> set w)"
    using base ld by blast
  have final: "cmd_followers followers_file iters \<noteq> []"
    if "\<forall>attempt < 5. OtherException \<notin> set (iters attempt)"
  proof -
    from that have "\<forall>a \<in> set [0 ..< 5]. OtherException \<notin> set (iters a)" by simp
    then have "\<not> crashed"
      using attempts_loop_no_crash [of "[0 ..< 5]" iters st0] r by simp
    then show ?thesis unfolding cmd by (simp add: save_def)
  qed
  have first: "\<exists>w \<in> set (cmd_followers followers_file iters).
           w = sorted_list_of_set (loaded \<union> set (yielded (iters 0)))
           \<and> set w = loaded \<union> set (yielded (iters 0))"
    if "ending_of (iters 0) \<noteq> Crashed"
  proof -
    have up: "[0 ..< 5] = 0 # [1 ..< 5]" by (simp add: upt_rec)
    have "sorted_list_of_set (loaded \<union> set (yielded (iters 0)))
          \<in> set (expected_writes iters [0 ..< 5] loaded)"
      unfolding up using that by (cases "ending_of (iters 0)") simp_all
    moreover have "set (sorted_list_of_set (loaded \<union> set (yielded (iters 0))))
                   = loaded \<union> set (yielded (iters 0))"
      using fl by simp
    ultimately show ?thesis unfolding spec by blast
  qed
  from spec all final first show ?thesis unfolding loaded_def by blast
qed

theorem followers_file_sorted_deduplicated_witness:
  "cmd_followers (Some [''zed'', ''bob'']) iters_example
     = [[''amy'', ''bob'', ''zed''], [''Cat'', ''amy'', ''bob'', ''zed'']]
   \<and> sorted [''Cat'', ''amy'', ''bob'', ''zed'']
   \<and> set [''zed'', ''bob''] \<subseteq> set [''amy'', ''bob'', ''zed'']
   \<and> cmd_followers (Some (units 99)) iters_checkpoint
     = [sort (''amy'' # units 99), sort (''amy'' # units 99),
        sort (''amy'' # ''bob'' # units 99)]
   \<and> length (sort (''amy'' # units 99)) = 100"
proof -
  have e: "cmd_followers (Some [''zed'', ''bob'']) iters_example
     = [[''amy'', ''bob'', ''zed''], [''Cat'', ''amy'', ''bob'', ''zed'']]"
    by code_simp
  have c: "cmd_followers (Some (units 99)) iters_checkpoint
     = [sort (''amy'' # units 99), sort (''amy'' # units 99),
        sort (''amy'' # ''bob'' # units 99)]"
    by code_simp
  have l: "length (sort (''amy'' # units 99)) = 100" by (simp add: units_def)
  have n: "\<forall>attempt < 5. OtherException \<notin> set (iters_example attempt)"
    by (simp add: iters_example_def)
  have en: "ending_of (iters_example 0) \<noteq> Crashed"
    by (simp add: iters_example_def)
  have y: "yielded (iters_example 0) = [''amy'', ''bob'']"
    by (simp add: iters_example_def)
  note t = followers_file_sorted_deduplicated [of "Some [''zed'', ''bob'']" iters_example]
  from t have "(\<forall>attempt < 5. OtherException \<notin> set (iters_example attempt)) \<longrightarrow>
        cmd_followers (Some [''zed'', ''bob'']) iters_example \<noteq> []"
    by (elim conjE)
  then have ne: "cmd_followers (Some [''zed'', ''bob'']) iters_example \<noteq> []"
    using n by (rule mp)
  from t have "ending_of (iters_example 0) \<noteq> Crashed \<longrightarrow>
        (\<exists>w \<in> set (cmd_followers (Some [''zed'', ''bob'']) iters_example).
           w = sorted_list_of_set
                 ((case Some [''zed'', ''bob''] of None \<Rightarrow> {} | Some names \<Rightarrow> set names)
                  \<union> set (yielded (iters_example 0)))
           \<and> set w = (case Some [''zed'', ''bob''] of None \<Rightarrow> {} | Some names \<Rightarrow> set names)
                     \<union> set (yielded (iters_example 0)))"
    by (elim conjE)
  then have "\<exists>w \<in> set (cmd_followers (Some [''zed'', ''bob'']) iters_example).
           w = sorted_list_of_set
                 ((case Some [''zed'', ''bob''] of None \<Rightarrow> {} | Some names \<Rightarrow> set names)
                  \<union> set (yielded (iters_example 0)))
           \<and> set w = (case Some [''zed'', ''bob''] of None \<Rightarrow> {} | Some names \<Rightarrow> set names)
                     \<union> set (yielded (iters_example 0))"
    using en by (rule mp)
  from t have "\<forall>w \<in> set (cmd_followers (Some [''zed'', ''bob'']) iters_example).
       sorted w \<and> distinct w
       \<and> (\<forall>names. Some [''zed'', ''bob''] = Some names \<longrightarrow> set names \<subseteq> set w)"
    by (elim conjE)
  then have "sorted [''Cat'', ''amy'', ''bob'', ''zed'']
             \<and> set [''zed'', ''bob''] \<subseteq> set [''amy'', ''bob'', ''zed'']"
    unfolding e by simp
  then show ?thesis using e c l by simp
qed

section \<open>Properties of the export parser\<close>

lemma contains_decomp: "contains n h \<Longrightarrow> \<exists>a b. h = a @ n @ b"
proof (induction h)
  case Nil
  then show ?case by simp
next
  case (Cons c cs)
  show ?case
  proof (cases "take (length n) (c # cs) = n")
    case True
    then have "c # cs = [] @ n @ drop (length n) (c # cs)"
      by (metis append_Nil append_take_drop_id)
    then show ?thesis by blast
  next
    case False
    with Cons.prems have "contains n cs" by simp
    then obtain a b where "cs = a @ n @ b" using Cons.IH by blast
    then have "c # cs = (c # a) @ n @ b" by simp
    then show ?thesis by blast
  qed
qed

lemma last_segment_nonempty:
  assumes "contains ''instagram.com/'' h"
  shows "last_segment (rstrip_slash h) \<noteq> []"
proof -
  obtain a b where "h = a @ ''instagram.com/'' @ b"
    using contains_decomp [OF assms] by blast
  then have "CHR ''i'' \<in> set (rev h)" by simp
  then have ex: "\<exists>c \<in> set (rev h). \<not> c = CHR ''/''" by (rule bexI [rotated]) simp
  define r where "r = dropWhile (\<lambda>c. c = CHR ''/'') (rev h)"
  have ne: "r \<noteq> []" using ex by (auto simp: r_def dropWhile_eq_Nil_conv)
  then have "\<not> hd r = CHR ''/''" unfolding r_def by (rule hd_dropWhile)
  with ne obtain x xs where "r = x # xs" "x \<noteq> CHR ''/''" by (cases r) auto
  then have "takeWhile (\<lambda>c. c \<noteq> CHR ''/'') r \<noteq> []" by simp
  then show ?thesis by (simp add: last_segment_def rstrip_slash_def r_def)
qed

lemma href_username_nonempty:
  "href_username href = Inr u \<Longrightarrow> u \<noteq> [] \<Longrightarrow>
   \<exists>h. href = JStr h \<and> contains ''instagram.com/'' h \<and> u = last_segment (rstrip_slash h)"
  by (auto simp: href_username_def split: json.splits if_splits)

lemma parse_sd_ok:
  "parse_sd utc_date sd = Inr (Some e) \<Longrightarrow> entry_ok utc_date e"
  by (auto simp: parse_sd_def entry_ok_def Let_def
      split: json.splits if_splits sum.splits)

lemma parse_string_data_ok:
  "parse_string_data utc_date sds acc = Inr es \<Longrightarrow>
   \<forall>e \<in> set acc. entry_ok utc_date e \<Longrightarrow> \<forall>e \<in> set es. entry_ok utc_date e"
proof (induction sds arbitrary: acc)
  case Nil
  then show ?case by simp
next
  case (Cons sd sds)
  show ?case
  proof (cases "parse_sd utc_date sd")
    case (Inl err)
    with Cons.prems show ?thesis by simp
  next
    case (Inr r)
    show ?thesis
    proof (cases r)
      case None
      with Inr Cons show ?thesis by simp
    next
      case (Some en)
      have "entry_ok utc_date en" using Inr Some parse_sd_ok by blast
      then have "\<forall>e \<in> set (acc @ [en]). entry_ok utc_date e" using Cons.prems(2) by simp
      moreover have "parse_string_data utc_date sds (acc @ [en]) = Inr es"
        using Cons.prems(1) Inr Some by simp
      ultimately show ?thesis using Cons.IH by blast
    qed
  qed
qed

lemma parse_items_ok:
  "parse_items utc_date items acc = Inr es \<Longrightarrow>
   \<forall>e \<in> set acc. entry_ok utc_date e \<Longrightarrow> \<forall>e \<in> set es. entry_ok utc_date e"
proof (induction items arbitrary: acc)
  case Nil
  then show ?case by simp
next
  case (Cons it items)
  from Cons.prems(1) obtain d where it: "it = JObj d"
    by (cases it) simp_all
  define sdata where "sdata = get_default d ''string_list_data'' (JList [])"
  show ?case
  proof (cases "truthy sdata")
    case False
    then have "parse_items utc_date items acc = Inr es"
      using Cons.prems(1) it by (simp add: sdata_def Let_def)
    then show ?thesis using Cons.IH Cons.prems(2) by blast
  next
    case True
    then obtain sds where sds: "sdata = JList sds"
      using Cons.prems(1) it by (cases sdata) (simp_all add: sdata_def Let_def)
    then obtain mid where mid: "parse_string_data utc_date sds acc = Inr mid"
      and rest: "parse_items utc_date items mid = Inr es"
      using Cons.prems(1) it True
      by (cases "parse_string_data utc_date sds acc") (simp_all add: sdata_def [symmetric] Let_def)
    have "\<forall>e \<in> set mid. entry_ok utc_date e"
      using parse_string_data_ok [OF mid Cons.prems(2)] .
    then show ?thesis using Cons.IH [OF rest] by blast
  qed
qed

lemma parse_relationship_entries_ok:
  assumes "parse_relationship_entries utc_date data = Inr es"
  shows "\<forall>e \<in> set es. entry_ok utc_date e"
proof (cases data)
  case (JList items)
  then have "parse_items utc_date items [] = Inr es"
    using assms by (simp add: parse_relationship_entries_def)
  then show ?thesis using parse_items_ok by fastforce
next
  case (JObj kvs)
  show ?thesis
  proof (cases "find (\<lambda>(key, value). is_list value) kvs")
    case None
    then show ?thesis using assms JObj by (simp add: parse_relationship_entries_def)
  next
    case (Some kv)
    obtain k v where kv: "kv = (k, v)" by (cases kv)
    show ?thesis
    proof (cases v)
      case (JList items)
      then have "parse_items utc_date items [] = Inr es"
        using assms JObj Some kv by (simp add: parse_relationship_entries_def)
      then show ?thesis using parse_items_ok by fastforce
    qed (use assms JObj Some kv in \<open>simp_all add: parse_relationship_entries_def\<close>)
  qed
qed (use assms in \<open>simp_all add: parse_relationship_entries_def split: if_splits\<close>)

lemma parse_sd_plain:
  assumes "plain_sd utc_date (JObj d)"
  shows "parse_sd utc_date (JObj d) = Inr (expected_entry utc_date d)"
proof -
  from assms have v: "str_or_missing (map_of d ''value'')"
    and h: "str_or_missing (map_of d ''href'')"
    and t: "expected_handle d \<noteq> [] \<and> truthy (get_default d ''timestamp'' (JInt 0)) \<longrightarrow>
               \<not> isl (utc_date (get_default d ''timestamp'' (JInt 0)))"
    by (simp_all add: plain_sd_def)
  have gv: "get_default d ''value'' (JStr []) = JStr (field_str d ''value'')"
  proof (cases "map_of d ''value''")
    case None
    then show ?thesis by (simp add: get_default_def field_str_def)
  next
    case (Some x)
    then show ?thesis using v by (cases x) (simp_all add: get_default_def field_str_def)
  qed
  have gh: "get_default d ''href'' (JStr []) = JStr (field_str d ''href'')"
  proof (cases "map_of d ''href''")
    case None
    then show ?thesis by (simp add: get_default_def field_str_def)
  next
    case (Some x)
    then show ?thesis using h by (cases x) (simp_all add: get_default_def field_str_def)
  qed
  have u: "(if strip (field_str d ''value'') \<noteq> [] then Inr (strip (field_str d ''value''))
            else href_username (JStr (field_str d ''href''))) = Inr (expected_handle d)"
    by (simp add: expected_handle_def href_username_def)
  have eq: "parse_sd utc_date (JObj d) =
     (if expected_handle d = [] then Inr None
      else
        let ts = get_default d ''timestamp'' (JInt 0)
        in if truthy ts
           then (case utc_date ts of
                   Inl e \<Rightarrow> Inl e
                 | Inr date \<Rightarrow>
                     Inr (Some \<lparr>handle = expected_handle d, follow_date = date,
                                timestamp = ts\<rparr>))
           else Inr (Some \<lparr>handle = expected_handle d, follow_date = [],
                           timestamp = ts\<rparr>))"
    by (simp only: parse_sd_def json.case gv gh u sum.case)
  show ?thesis
  proof (cases "expected_handle d = []")
    case True
    then show ?thesis unfolding eq by (simp add: expected_entry_def)
  next
    case False
    show ?thesis
    proof (cases "truthy (get_default d ''timestamp'' (JInt 0))")
      case True
      then obtain date where "utc_date (get_default d ''timestamp'' (JInt 0)) = Inr date"
        using t False by (cases "utc_date (get_default d ''timestamp'' (JInt 0))") auto
      then show ?thesis using False True unfolding eq
        by (simp add: expected_entry_def Let_def)
    next
      case nt: False
      then show ?thesis using False unfolding eq
        by (simp add: expected_entry_def Let_def)
    qed
  qed
qed

lemma parse_string_data_plain:
  "list_all (plain_sd utc_date) sds \<Longrightarrow>
   parse_string_data utc_date sds acc
   = Inr (acc @ List.map_filter
                  (\<lambda>sd. case sd of JObj d \<Rightarrow> expected_entry utc_date d | _ \<Rightarrow> None) sds)"
proof (induction sds arbitrary: acc)
  case Nil
  then show ?case by (simp add: List.map_filter_simps)
next
  case (Cons sd sds)
  from Cons.prems obtain d where d: "sd = JObj d"
    by (cases sd) (simp_all add: plain_sd_def)
  have p: "parse_sd utc_date sd = Inr (expected_entry utc_date d)"
    using Cons.prems d parse_sd_plain by simp
  have rest: "list_all (plain_sd utc_date) sds" using Cons.prems by simp
  show ?case
    using p d Cons.IH [OF rest]
    by (cases "expected_entry utc_date d") (simp_all add: List.map_filter_simps)
qed

lemma parse_items_plain:
  "list_all (plain_item utc_date) items \<Longrightarrow>
   parse_items utc_date items acc = Inr (acc @ concat (map (item_entries utc_date) items))"
proof (induction items arbitrary: acc)
  case Nil
  then show ?case by simp
next
  case (Cons element items)
  from Cons.prems obtain it where it: "element = JObj it"
    by (cases element) (simp_all add: plain_item_def)
  have rest: "list_all (plain_item utc_date) items" using Cons.prems by simp
  show ?case
  proof (cases "map_of it ''string_list_data''")
    case None
    then show ?thesis using it Cons.IH [OF rest]
      by (simp add: get_default_def item_entries_def Let_def)
  next
    case (Some v)
    show ?thesis
    proof (cases "is_list v")
      case True
      then obtain sds where sds: "v = JList sds" by (cases v) simp_all
      then have pl: "list_all (plain_sd utc_date) sds"
        using Cons.prems it Some by (simp add: plain_item_def)
      show ?thesis
        using it Some sds Cons.IH [OF rest] parse_string_data_plain [OF pl]
        by (cases sds) (simp_all add: get_default_def item_entries_def Let_def List.map_filter_simps)
    next
      case False
      then have nt: "\<not> truthy v"
        using Cons.prems it Some by (cases v) (simp_all add: plain_item_def)
      have "item_entries utc_date element = []"
        using it Some False by (cases v) (simp_all add: item_entries_def)
      then show ?thesis
        using it Some nt Cons.IH [OF rest] by (simp add: get_default_def Let_def)
    qed
  qed
qed

lemma parse_export_plain:
  assumes "export_items data = Some items" and "list_all (plain_item utc_date) items"
  shows "parse_relationship_entries utc_date data
         = Inr (concat (map (item_entries utc_date) items))"
proof (cases data)
  case (JList xs)
  then show ?thesis
    using assms parse_items_plain [of utc_date items "[]"]
    by (simp add: export_items_def parse_relationship_entries_def)
next
  case (JObj kvs)
  show ?thesis
  proof (cases "find (\<lambda>(key, value). is_list value) kvs")
    case None
    then show ?thesis using assms JObj
      by (simp add: export_items_def parse_relationship_entries_def)
  next
    case (Some kv)
    obtain k v where kv: "kv = (k, v)" by (cases kv)
    show ?thesis
    proof (cases v)
      case (JList xs)
      then show ?thesis
        using assms JObj Some kv parse_items_plain [of utc_date items "[]"]
        by (simp add: export_items_def parse_relationship_entries_def)
    qed (use assms JObj Some kv in
          \<open>simp_all add: export_items_def parse_relationship_entries_def\<close>)
  qed
qed (use assms in \<open>simp_all add: export_items_def\<close>)

lemma parse_export_items:
  assumes "export_items data = Some elements"
  shows "parse_relationship_entries utc_date data = parse_items utc_date elements []"
proof (cases data)
  case (JList xs)
  then show ?thesis
    using assms by (simp add: export_items_def parse_relationship_entries_def)
next
  case (JObj kvs)
  show ?thesis
  proof (cases "find (\<lambda>(key, value). is_list value) kvs")
    case None
    then show ?thesis using assms JObj
      by (auto simp: export_items_def parse_relationship_entries_def)
  next
    case (Some kv)
    obtain k v where kv: "kv = (k, v)" by (cases kv)
    show ?thesis
      using assms JObj Some kv
      by (cases v) (auto simp: export_items_def parse_relationship_entries_def)
  qed
qed (use assms in \<open>simp_all add: export_items_def\<close>)

lemma parse_sd_raises:
  "raises_on d \<Longrightarrow> isl (parse_sd utc_date (JObj d))"
  by (auto simp: raises_on_def parse_sd_def get_default_def field_str_def href_username_def
      split: option.splits json.splits)

lemma parse_string_data_raises:
  "\<exists>sd \<in> set sds. isl (parse_sd utc_date sd) \<Longrightarrow> isl (parse_string_data utc_date sds acc)"
proof (induction sds arbitrary: acc)
  case Nil
  then show ?case by simp
next
  case (Cons sd sds)
  show ?case
  proof (cases "parse_sd utc_date sd")
    case (Inl e)
    then show ?thesis by simp
  next
    case (Inr r)
    then have "\<exists>sd \<in> set sds. isl (parse_sd utc_date sd)" using Cons.prems by auto
    then have "isl (parse_string_data utc_date sds acc')" for acc' by (rule Cons.IH)
    then show ?thesis using Inr by (cases r) simp_all
  qed
qed

lemma parse_items_raises:
  "JObj it \<in> set items \<Longrightarrow> map_of it ''string_list_data'' = Some (JList sds) \<Longrightarrow>
   \<exists>sd \<in> set sds. isl (parse_sd utc_date sd) \<Longrightarrow> isl (parse_items utc_date items acc)"
proof (induction items arbitrary: acc)
  case Nil
  then show ?case by simp
next
  case (Cons element items)
  show ?case
  proof (cases "element = JObj it")
    case True
    have ne: "sds \<noteq> []" using Cons.prems(3) by auto
    have "isl (parse_string_data utc_date sds acc)"
      using parse_string_data_raises [OF Cons.prems(3)] .
    then show ?thesis using True Cons.prems(2) ne
      by (cases "parse_string_data utc_date sds acc") (simp_all add: get_default_def Let_def)
  next
    case False
    then have "JObj it \<in> set items" using Cons.prems(1) by simp
    then have ih: "isl (parse_items utc_date items acc')" for acc'
      using Cons.IH Cons.prems(2,3) by blast
    show ?thesis
    proof (cases element)
      case (JObj d)
      define sdata where "sdata = get_default d ''string_list_data'' (JList [])"
      show ?thesis
      proof (cases "truthy sdata")
        case nt: False
        then show ?thesis using JObj ih by (simp add: sdata_def Let_def)
      next
        case t: True
        show ?thesis
        proof (cases sdata)
          case (JList xs)
          then show ?thesis using JObj t ih
            by (cases "parse_string_data utc_date xs acc")
               (simp_all add: sdata_def [symmetric] Let_def)
        qed (use JObj t in \<open>simp_all add: sdata_def [symmetric] Let_def\<close>)
      qed
    qed simp_all
  qed
qed

text \<open>
  C9, as the code has it. For an export, in either format, whose elements are plain
  (each an object whose \<^verbatim>\<open>string_list_data\<close> is missing, false or a list of objects
  whose value and href are strings when present and whose timestamp, when the item has
  a handle and the timestamp is not zero, has a date), \<^verbatim>\<open>parse_relationship_entries\<close>
  returns exactly the expected entries, in the order of the export: one for each item
  that has a handle, the handle being the value without its surrounding blanks or,
  when that is empty or the value is missing, the last path segment of an
  instagram.com href, which is not empty; an item with neither is dropped without an
  error; the follow date is the UTC date of the item's timestamp when that is present
  and not zero, and the empty string otherwise. Of any input, every entry returned has
  a non-empty handle and a follow date that is the date of its timestamp, or empty for
  a zero timestamp. An item whose value is present and not a string, or whose value is
  missing or blank while its href is null, a number or a boolean, is not dropped: the
  call raises, in either format, and no entries are returned at all.
\<close>

theorem relationship_entries_have_handles:
  "(export_items data = Some items \<and> list_all (plain_item utc_date) items \<longrightarrow>
      parse_relationship_entries utc_date data
        = Inr (concat (map (item_entries utc_date) items)))
   \<and> (parse_relationship_entries utc_date data = Inr es \<longrightarrow>
      (\<forall>e \<in> set es.
         handle e \<noteq> []
         \<and> (if truthy (timestamp e) then utc_date (timestamp e) = Inr (follow_date e)
            else follow_date e = [])))
   \<and> (strip (field_str d ''value'') = [] \<and> contains ''instagram.com/'' (field_str d ''href'') \<longrightarrow>
        expected_handle d = last_segment (rstrip_slash (field_str d ''href''))
        \<and> expected_handle d \<noteq> [])
   \<and> (export_items export = Some elements \<and> JObj it \<in> set elements
        \<and> map_of it ''string_list_data'' = Some (JList sds)
        \<and> JObj d' \<in> set sds \<and> raises_on d' \<longrightarrow>
        (\<exists>e. parse_relationship_entries utc_date export = Inl e))"
proof (intro conjI impI)
  assume "export_items data = Some items \<and> list_all (plain_item utc_date) items"
  then show "parse_relationship_entries utc_date data
        = Inr (concat (map (item_entries utc_date) items))"
    using parse_export_plain by blast
next
  assume "parse_relationship_entries utc_date data = Inr es"
  then have "\<forall>e \<in> set es. entry_ok utc_date e"
    by (rule parse_relationship_entries_ok)
  then show "\<forall>e \<in> set es.
         handle e \<noteq> []
         \<and> (if truthy (timestamp e) then utc_date (timestamp e) = Inr (follow_date e)
            else follow_date e = [])"
    by (simp add: entry_ok_def)
next
  assume a: "strip (field_str d ''value'') = [] \<and> contains ''instagram.com/'' (field_str d ''href'')"
  then show "expected_handle d = last_segment (rstrip_slash (field_str d ''href''))"
    by (simp add: expected_handle_def)
  then show "expected_handle d \<noteq> []"
    using a last_segment_nonempty by simp
next
  assume a: "export_items export = Some elements \<and> JObj it \<in> set elements
        \<and> map_of it ''string_list_data'' = Some (JList sds)
        \<and> JObj d' \<in> set sds \<and> raises_on d'"
  then have "\<exists>sd \<in> set sds. isl (parse_sd utc_date sd)"
    using parse_sd_raises [of d' utc_date] by blast
  then have "isl (parse_items utc_date elements [])"
    using parse_items_raises [of it elements sds utc_date "[]"] a by blast
  moreover have "parse_relationship_entries utc_date export = parse_items utc_date elements []"
    using a parse_export_items by blast
  ultimately show "\<exists>e. parse_relationship_entries utc_date export = Inl e"
    by (cases "parse_items utc_date elements []") simp_all
qed

theorem relationship_entries_have_handles_witness:
  "parse_relationship_entries utc_date_int export_example
     = Inr [\<lparr>handle = ''alice'', follow_date = ''2023-11-14'', timestamp = JInt 1700000000\<rparr>,
            \<lparr>handle = ''bob'', follow_date = [], timestamp = JInt 0\<rparr>]
   \<and> utc_date_int (JInt 1700000000) = Inr ''2023-11-14''
   \<and> expected_handle [(''href'', JStr ''https://www.instagram.com/alice/''), (''value'', JStr '' '')]
     = ''alice''
   \<and> (\<exists>e. parse_relationship_entries utc_date_int export_null_value = Inl e)"
proof -
  note t = relationship_entries_have_handles
    [of export_example export_example_items utc_date_int
        "[\<lparr>handle = ''alice'', follow_date = ''2023-11-14'', timestamp = JInt 1700000000\<rparr>,
          \<lparr>handle = ''bob'', follow_date = [], timestamp = JInt 0\<rparr>]"
        "[(''href'', JStr ''https://www.instagram.com/alice/''), (''value'', JStr '' '')]"
        export_null_value
        "[JObj [(''string_list_data'', JList
              [JObj [(''value'', JStr ''alice'')],
               JObj [(''value'', JNull),
                     (''href'', JStr ''https://www.instagram.com/bob'')]])]]"
        "[(''string_list_data'', JList
              [JObj [(''value'', JStr ''alice'')],
               JObj [(''value'', JNull),
                     (''href'', JStr ''https://www.instagram.com/bob'')]])]"
        "[JObj [(''value'', JStr ''alice'')],
          JObj [(''value'', JNull), (''href'', JStr ''https://www.instagram.com/bob'')]]"
        "[(''value'', JNull), (''href'', JStr ''https://www.instagram.com/bob'')]"]
  have i: "export_items export_example = Some export_example_items"
    by (simp add: export_items_def export_example_def)
  have pl: "list_all (plain_item utc_date_int) export_example_items"
    by code_simp
  have ex: "concat (map (item_entries utc_date_int) export_example_items)
     = [\<lparr>handle = ''alice'', follow_date = ''2023-11-14'', timestamp = JInt 1700000000\<rparr>,
        \<lparr>handle = ''bob'', follow_date = [], timestamp = JInt 0\<rparr>]"
    by code_simp
  from t have "export_items export_example = Some export_example_items
      \<and> list_all (plain_item utc_date_int) export_example_items \<longrightarrow>
      parse_relationship_entries utc_date_int export_example
        = Inr (concat (map (item_entries utc_date_int) export_example_items))"
    by (elim conjE)
  then have p: "parse_relationship_entries utc_date_int export_example
     = Inr [\<lparr>handle = ''alice'', follow_date = ''2023-11-14'', timestamp = JInt 1700000000\<rparr>,
            \<lparr>handle = ''bob'', follow_date = [], timestamp = JInt 0\<rparr>]"
    using i pl ex by simp
  have u: "utc_date_int (JInt 1700000000) = Inr ''2023-11-14''"
    by code_simp
  have c: "strip (field_str [(''href'', JStr ''https://www.instagram.com/alice/''),
                             (''value'', JStr '' '')] ''value'') = []"
    "contains ''instagram.com/''
       (field_str [(''href'', JStr ''https://www.instagram.com/alice/''),
                   (''value'', JStr '' '')] ''href'')"
    "last_segment (rstrip_slash
       (field_str [(''href'', JStr ''https://www.instagram.com/alice/''),
                   (''value'', JStr '' '')] ''href'')) = ''alice''"
    by code_simp+
  from t have "strip (field_str [(''href'', JStr ''https://www.instagram.com/alice/''),
                             (''value'', JStr '' '')] ''value'') = []
      \<and> contains ''instagram.com/''
          (field_str [(''href'', JStr ''https://www.instagram.com/alice/''),
                      (''value'', JStr '' '')] ''href'') \<longrightarrow>
      expected_handle [(''href'', JStr ''https://www.instagram.com/alice/''),
                       (''value'', JStr '' '')]
        = last_segment (rstrip_slash
            (field_str [(''href'', JStr ''https://www.instagram.com/alice/''),
                        (''value'', JStr '' '')] ''href''))
      \<and> expected_handle [(''href'', JStr ''https://www.instagram.com/alice/''),
                         (''value'', JStr '' '')] \<noteq> []"
    by (elim conjE)
  then have h: "expected_handle [(''href'', JStr ''https://www.instagram.com/alice/''),
                                 (''value'', JStr '' '')] = ''alice''"
    using c by simp
  have r: "raises_on [(''value'', JNull), (''href'', JStr ''https://www.instagram.com/bob'')]"
    by (simp add: raises_on_def)
  have x: "export_items export_null_value
     = Some [JObj [(''string_list_data'', JList
              [JObj [(''value'', JStr ''alice'')],
               JObj [(''value'', JNull),
                     (''href'', JStr ''https://www.instagram.com/bob'')]])]]"
    by (simp add: export_items_def export_null_value_def)
  from t have n: "\<exists>e. parse_relationship_entries utc_date_int export_null_value = Inl e"
    using r x by simp
  from p u h n show ?thesis by (intro conjI)
qed

theorem relationship_entries_counterexample:
  "parse_relationship_entries utc_date_int export_null_value = Inl AttributeError
   \<and> parse_relationship_entries utc_date_int export_null_href = Inl TypeError"
  by code_simp

section \<open>Properties of the normalization\<close>









section \<open>Properties of the batch collector\<close>

lemma wait_loop_reaches:
  assumes st: "getitem (poll k) ''status'' = Inr st" and te: "terminal st"
    and before: "\<forall>j < k. \<exists>s. getitem (poll j) ''status'' = Inr s \<and> \<not> terminal s"
  shows "i \<le> k \<Longrightarrow> wait_loop poll i = Some (Inr (poll k, k))"
proof (induction "k - i" arbitrary: i)
  case 0
  then have "i = k" by simp
  then show ?case using st te by (subst wait_loop.simps) simp
next
  case (Suc d)
  then have lt: "i < k" and d: "d = k - Suc i" by simp_all
  obtain s where s: "getitem (poll i) ''status'' = Inr s" "\<not> terminal s"
    using before lt by blast
  have "wait_loop poll (Suc i) = Some (Inr (poll k, k))"
    using Suc.hyps(1) [OF d] lt by simp
  then show ?case using s by (subst wait_loop.simps) simp
qed

lemma wait_for_run_terminal:
  assumes st: "getitem (poll k) ''status'' = Inr st" and te: "terminal st"
    and before: "\<forall>j < k. \<exists>s. getitem (poll j) ''status'' = Inr s \<and> \<not> terminal s"
  shows "wait_for_run poll
         = Some (if st = JStr ''SUCCEEDED'' then Inr (poll k) else Inl (SystemExit 1))"
proof -
  have "wait_loop poll 0 = Some (Inr (poll k, k))"
    using wait_loop_reaches [OF st te before, of 0] by simp
  moreover have "get (poll k) ''status'' = st"
    using st by (simp add: getitem_def get_def split: option.splits)
  ultimately show ?thesis by (simp add: wait_for_run_def)
qed

lemma scrape_loop_break:
  "j < length bs \<Longrightarrow> \<forall>i < j. backend (k + i) (bs ! i) \<noteq> CallRaised \<Longrightarrow>
   backend (k + j) (bs ! j) = CallRaised \<Longrightarrow>
   scrape_loop backend k bs existing raw
   = ((if j = 0 then raw
       else Some (existing @ concat (map (\<lambda>i. items_of (backend (k + i) (bs ! i))) [0 ..< j]))),
      take (Suc j) bs)"
proof (induction bs arbitrary: j k existing raw)
  case Nil
  then show ?case by simp
next
  case (Cons batch rest)
  show ?case
  proof (cases j)
    case 0
    then show ?thesis using Cons.prems by simp
  next
    case (Suc j')
    from Cons.prems(2) Suc obtain status items where r: "backend k batch = Run status items"
      by (cases "backend k batch") force+
    have a: "j' < length rest" using Cons.prems(1) Suc by simp
    have b: "\<forall>i < j'. backend (Suc k + i) (rest ! i) \<noteq> CallRaised"
      using Cons.prems(2) Suc by fastforce
    have c: "backend (Suc k + j') (rest ! j') = CallRaised"
      using Cons.prems(3) Suc by simp
    note ih = Cons.IH [OF a b c, of "existing @ items" "Some (existing @ items)"]
    have m: "map (\<lambda>i. items_of (backend (k + i) ((batch # rest) ! i))) [0 ..< Suc j']
             = items # map (\<lambda>i. items_of (backend (Suc k + i) (rest ! i))) [0 ..< j']"
      using r by (simp add: upt_rec [of 0] map_Suc_upt [symmetric] del: upt_Suc)
    show ?thesis
      unfolding Suc using r ih m by (simp del: upt_Suc)
  qed
qed

lemma batches_nonempty:
  assumes "batches b xs = Inr bs" and "bs \<noteq> []"
  shows "0 < b" and "xs \<noteq> []"
proof -
  show b: "0 < b"
    using assms by (cases "b = 0"; cases "b < 0") (auto simp: batches_def py_range_def)
  show "xs \<noteq> []"
  proof
    assume "xs = []"
    then have "batches b xs = Inr []"
      using b by (simp add: batches_def py_range_def range3.simps)
    with assms show False by simp
  qed
qed

text \<open>
  C4, as the code has it. \<^verbatim>\<open>wait_for_run\<close> returns: when the polls reach a terminal
  status, it hands back the run info if that status is SUCCEEDED, and otherwise leaves
  the process with \<^verbatim>\<open>sys.exit(1)\<close>, so that no run is returned to take records from.
  In \<^verbatim>\<open>cmd_scrape\<close>, when the call of batch \<open>j\<close> is the first to raise, the loop ends
  there: the batches submitted are those up to \<open>j\<close>, the raw file holds what it held
  before and the items of the batches before \<open>j\<close> (it is untouched when \<open>j\<close> is the
  first batch), and the command goes on to convert that file to rows; its result is
  that of the conversion, not an error of the batch.
\<close>

theorem remote_failure_handling:
  "(getitem (poll n) ''status'' = Inr st \<and> terminal st
      \<and> (\<forall>i < n. \<exists>s. getitem (poll i) ''status'' = Inr s \<and> \<not> terminal s) \<longrightarrow>
      wait_for_run poll
        = Some (if st = JStr ''SUCCEEDED'' then Inr (poll n) else Inl (SystemExit 1)))
   \<and> (load_already_scraped raw = Inr D \<and> batches b (remaining W D) = Inr bs
        \<and> j < length bs \<and> (\<forall>i < j. backend i (bs ! i) \<noteq> CallRaised)
        \<and> backend j (bs ! j) = CallRaised \<longrightarrow>
        (let kept = (if j = 0 then raw
                     else Some ((case raw of None \<Rightarrow> [] | Some data \<Rightarrow> data)
                                @ concat (map (\<lambda>i. items_of (backend i (bs ! i))) [0 ..< j])))
         in scrape_batches backend W b raw = Inr (kept, take (Suc j) bs)
            \<and> cmd_scrape backend h W b raw
              = (case convert_apify_to_csv h kept of
                   Inl e \<Rightarrow> Inl e
                 | Inr rows \<Rightarrow>
                     Inr \<lparr>store = kept, submitted = take (Suc j) bs, profiles_csv = rows\<rparr>)))"
proof (intro conjI impI)
  assume "getitem (poll n) ''status'' = Inr st \<and> terminal st
      \<and> (\<forall>i < n. \<exists>s. getitem (poll i) ''status'' = Inr s \<and> \<not> terminal s)"
  then show "wait_for_run poll
        = Some (if st = JStr ''SUCCEEDED'' then Inr (poll n) else Inl (SystemExit 1))"
    using wait_for_run_terminal [of poll n st] by blast
next
  assume a: "load_already_scraped raw = Inr D \<and> batches b (remaining W D) = Inr bs
        \<and> j < length bs \<and> (\<forall>i < j. backend i (bs ! i) \<noteq> CallRaised)
        \<and> backend j (bs ! j) = CallRaised"
  define ex where "ex = (case raw of None \<Rightarrow> [] | Some data \<Rightarrow> data)"
  define kept where "kept = (if j = 0 then raw
       else Some (ex @ concat (map (\<lambda>i. items_of (backend i (bs ! i))) [0 ..< j])))"
  from a have ne: "bs \<noteq> []" by auto
  have b: "0 < b" and r: "remaining W D \<noteq> []"
    using batches_nonempty [of b "remaining W D" bs] a ne by blast+
  have tb: "\<exists>t. total_batches (length (remaining W D)) b = Inr t"
    using b by (simp add: total_batches_def)
  have loop: "scrape_loop backend 0 bs ex raw = (kept, take (Suc j) bs)"
    using scrape_loop_break [of j bs backend 0 ex raw] a by (simp add: kept_def)
  have sb: "scrape_batches backend W b raw = Inr (kept, take (Suc j) bs)"
    using a r tb loop by (auto simp: scrape_batches_def Let_def ex_def)
  then have cs: "cmd_scrape backend h W b raw
              = (case convert_apify_to_csv h kept of
                   Inl e \<Rightarrow> Inl e
                 | Inr rows \<Rightarrow>
                     Inr \<lparr>store = kept, submitted = take (Suc j) bs, profiles_csv = rows\<rparr>)"
    by (simp add: cmd_scrape_def)
  from sb cs show "let kept = (if j = 0 then raw
                     else Some ((case raw of None \<Rightarrow> [] | Some data \<Rightarrow> data)
                                @ concat (map (\<lambda>i. items_of (backend i (bs ! i))) [0 ..< j])))
         in scrape_batches backend W b raw = Inr (kept, take (Suc j) bs)
            \<and> cmd_scrape backend h W b raw
              = (case convert_apify_to_csv h kept of
                   Inl e \<Rightarrow> Inl e
                 | Inr rows \<Rightarrow>
                     Inr \<lparr>store = kept, submitted = take (Suc j) bs, profiles_csv = rows\<rparr>)"
    unfolding Let_def kept_def ex_def by simp
qed

theorem remote_failure_handling_witness:
  "wait_for_run polls_example = Some (Inl (SystemExit 1))
   \<and> map_sum id store (cmd_scrape (raising_at 1) no_dates (units 137) 50 None)
       = Inr (Some (map profile_of (units 50)))
   \<and> map_sum id submitted (cmd_scrape (raising_at 1) no_dates (units 137) 50 None)
       = Inr [units 50, drop 50 (units 100)]
   \<and> length (units 50) = 50"
proof -
  have w: "wait_for_run polls_example = Some (Inl (SystemExit 1))"
    by code_simp
  have s: "map_sum id store (cmd_scrape (raising_at 1) no_dates (units 137) 50 None)
       = Inr (Some (map profile_of (units 50)))"
    by code_simp
  have t: "map_sum id submitted (cmd_scrape (raising_at 1) no_dates (units 137) 50 None)
       = Inr [units 50, drop 50 (units 100)]"
    by code_simp
  have l: "length (units 50) = 50" by (simp add: units_def)
  have p: "getitem (polls_example 3) ''status'' = Inr (JStr ''FAILED'')"
    "terminal (JStr ''FAILED'')"
    "\<forall>i < 3. \<exists>s. getitem (polls_example i) ''status'' = Inr s \<and> \<not> terminal s"
    by (simp_all add: polls_example_def getitem_def terminal_def)
  have d: "load_already_scraped None = Inr {}"
    by (simp add: load_already_scraped_def)
  have bs: "batches 50 (remaining (units 137) {})
            = Inr [units 50, drop 50 (units 100), drop 100 (units 137)]"
    by code_simp
  have r: "raising_at 1 0 (units 50) \<noteq> CallRaised"
    "raising_at 1 1 (drop 50 (units 100)) = CallRaised"
    by (simp_all add: raising_at_def)
  show ?thesis
    using remote_failure_handling
      [of polls_example 3 "JStr ''FAILED''" None "{}" 50 "units 137"
          "[units 50, drop 50 (units 100), drop 100 (units 137)]" 1 "raising_at 1" no_dates]
      w s t l p d bs r
    by simp
qed

theorem remote_failure_counterexample:
  "map_sum id submitted (cmd_scrape (failed_run_at 1) no_dates (units 137) 50 None)
     = Inr [units 50, drop 50 (units 100), drop 100 (units 137)]
   \<and> map_sum id store (cmd_scrape (failed_run_at 1) no_dates (units 137) 50 None)
     = Inr (Some (map profile_of (units 53 @ drop 100 (units 137))))
   \<and> map_sum id submitted (cmd_scrape (raising_at 1) no_dates (units 137) 50 None)
     = Inr [units 50, drop 50 (units 100)]"
  by code_simp

section \<open>Properties of the result stores\<close>

lemma dict_set_keys:
  "map fst (dict_set k v kvs) = (if k \<in> fst ` set kvs then map fst kvs else map fst kvs @ [k])"
  by (induction k v kvs rule: dict_set.induct) (auto simp: image_iff)

lemma dict_set_set: "set (dict_set k v kvs) \<subseteq> insert (k, v) (set kvs)"
  by (induction k v kvs rule: dict_set.induct) auto

lemma keyed_dict_set:
  assumes "keyed str coll" and "str (get r ''ig_user_id'') = k"
  shows "keyed str (dict_set k r coll)"
proof -
  have "distinct (map fst (dict_set k r coll))"
    using assms(1) by (auto simp: keyed_def dict_set_keys)
  moreover have "\<forall>(k', r') \<in> set (dict_set k r coll). str (get r' ''ig_user_id'') = k'"
    using assms dict_set_set [of k r coll] by (auto simp: keyed_def)
  ultimately show ?thesis by (simp add: keyed_def)
qed

lemma keyed_idents:
  "keyed str coll \<Longrightarrow> distinct (map (\<lambda>r. str (get r ''ig_user_id'')) (map snd coll))"
proof -
  assume k: "keyed str coll"
  then have "map (\<lambda>r. str (get r ''ig_user_id'')) (map snd coll) = map fst coll"
    by (auto simp: keyed_def)
  moreover have "distinct (map fst coll)" using k by (simp add: keyed_def)
  ultimately show ?thesis by (simp only:)
qed

lemma load_collected_keyed:
  "keyed str coll \<Longrightarrow> load_collected str items coll = Inr coll' \<Longrightarrow> keyed str coll'"
proof (induction items arbitrary: coll)
  case Nil
  then show ?case by simp
next
  case (Cons item items)
  from Cons.prems(2) obtain v where v: "getitem item ''ig_user_id'' = Inr v"
    by (cases "getitem item ''ig_user_id''") simp_all
  then have "get item ''ig_user_id'' = v"
    by (simp add: getitem_def get_def split: option.splits)
  then have "keyed str (dict_set (str v) item coll)"
    using keyed_dict_set [OF Cons.prems(1), of item "str v"] by simp
  moreover have "load_collected str items (dict_set (str v) item coll) = Inr coll'"
    using Cons.prems(2) v by simp
  ultimately show ?case by (rule Cons.IH)
qed

lemma collect_users_keyed:
  assumes str: "\<forall>s. str (JStr s) = s"
  shows "keyed str coll \<Longrightarrow> collect_users str users coll = Inr coll' \<Longrightarrow> keyed str coll'"
proof (induction users arbitrary: coll)
  case Nil
  then show ?case by simp
next
  case (Cons u users)
  from Cons.prems(2) obtain d where u: "u = JObj d" by (cases u) simp_all
  define uid where "uid = str (py_or (get d ''pk'') (get_default d ''pk_id'' (JStr [])))"
  define rec where "rec = [(''ig_user_id'', JStr uid),
                         (''handle'', get_default d ''username'' (JStr [])),
                         (''full_name'', get_default d ''full_name'' (JStr [])),
                         (''is_private'', get_default d ''is_private'' (JBool False)),
                         (''is_verified'', get_default d ''is_verified'' (JBool False)),
                         (''profile_pic_url'', get_default d ''profile_pic_url'' (JStr []))]"
  show ?case
  proof (cases "uid = []")
    case True
    then have "collect_users str users coll = Inr coll'"
      using Cons.prems(2) u by (simp add: uid_def Let_def)
    then show ?thesis using Cons.IH Cons.prems(1) by blast
  next
    case False
    have "str (get rec ''ig_user_id'') = uid" using str by (simp add: rec_def get_def)
    then have k: "keyed str (dict_set uid rec coll)"
      using keyed_dict_set [OF Cons.prems(1)] by blast
    have "collect_users str users (dict_set uid rec coll) = Inr coll'"
      using Cons.prems(2) u False unfolding rec_def uid_def by (simp add: Let_def)
    then show ?thesis using Cons.IH k by blast
  qed
qed

lemma followers_pages_distinct:
  assumes str: "\<forall>s. str (JStr s) = s"
  shows "keyed str coll \<Longrightarrow>
         \<forall>w \<in> set written. distinct (map (\<lambda>r. str (get r ''ig_user_id'')) w) \<Longrightarrow>
         \<forall>w \<in> set (followers_pages str pages coll written).
            distinct (map (\<lambda>r. str (get r ''ig_user_id'')) w)"
proof (induction pages arbitrary: coll written)
  case Nil
  then show ?case by simp
next
  case (Cons page pages)
  show ?case
  proof (cases page)
    case (Inl e)
    then show ?thesis using Cons.prems by simp
  next
    case (Inr data)
    define users where "users = get_default data ''users'' (JList [])"
    have base: "\<forall>w \<in> set (written @ [map snd coll]). distinct (map (\<lambda>r. str (get r ''ig_user_id'')) w)"
      using Cons.prems keyed_idents [of str coll] by auto
    show ?thesis
    proof (cases "truthy users")
      case False
      then show ?thesis using Inr base by (simp add: users_def Let_def)
    next
      case True
      show ?thesis
      proof (cases users)
        case (JList us)
        show ?thesis
        proof (cases "collect_users str us coll")
          case (Inl e)
          then show ?thesis using Inr True JList Cons.prems(2)
            by (simp add: users_def [symmetric] Let_def)
        next
          case r: (Inr coll')
          have k: "keyed str coll'"
            using collect_users_keyed [OF str Cons.prems(1) r] .
          have w: "\<forall>w \<in> set (written @ [map snd coll']).
                     distinct (map (\<lambda>r. str (get r ''ig_user_id'')) w)"
            using Cons.prems(2) keyed_idents [OF k] by auto
          show ?thesis
          proof (cases "truthy (get data ''next_max_id'')")
            case False
            then show ?thesis using Inr True JList r w
              by (simp add: users_def [symmetric] Let_def)
          next
            case t: True
            have "\<forall>w \<in> set (followers_pages str pages coll' (written @ [map snd coll'])).
                    distinct (map (\<lambda>r. str (get r ''ig_user_id'')) w)"
              using Cons.IH [OF k w] .
            then show ?thesis using Inr True JList r t
              by (simp add: users_def [symmetric] Let_def)
          qed
        qed
      qed (use Inr True Cons.prems(2) in \<open>simp_all add: users_def [symmetric] Let_def\<close>)
    qed
  qed
qed

lemma api_cmd_followers_distinct:
  assumes str: "\<forall>s. str (JStr s) = s"
  shows "\<forall>w \<in> set (api_cmd_followers str followers_file pages).
            distinct (map (\<lambda>r. str (get r ''ig_user_id'')) w)"
proof (cases "case followers_file of None \<Rightarrow> Inr [] | Some items \<Rightarrow> load_collected str items []")
  case (Inl e)
  then show ?thesis by (simp add: api_cmd_followers_def)
next
  case (Inr coll)
  have "keyed str []" by (simp add: keyed_def)
  then have "keyed str coll"
    using Inr load_collected_keyed [of str "[]" _ coll]
    by (cases followers_file) auto
  then show ?thesis
    using Inr followers_pages_distinct [OF str, of coll "[]" pages]
    by (simp add: api_cmd_followers_def)
qed

lemma api_restarts_distinct:
  assumes str: "\<forall>s. str (JStr s) = s"
  shows "\<forall>w \<in> set (api_restarts str followers_file runs).
            distinct (map (\<lambda>r. str (get r ''ig_user_id'')) w)"
proof (induction runs arbitrary: followers_file)
  case Nil
  then show ?case by simp
next
  case (Cons pages runs)
  show ?case
    using api_cmd_followers_distinct [OF str, of followers_file pages] Cons.IH
    by (auto simp: Let_def)
qed

lemma load_already_scraped_well_keyed:
  assumes "well_keyed raw"
  shows "load_already_scraped raw
         = Inr (case raw of None \<Rightarrow> {} | Some data \<Rightarrow> (\<lambda>r. get r ''username'') ` set data)"
proof (cases raw)
  case None
  then show ?thesis by (simp add: load_already_scraped_def)
next
  case (Some data)
  then have all: "\<forall>r \<in> set data. \<exists>s. get r ''username'' = JStr s \<and> s \<noteq> []"
    using assms by (simp add: well_keyed_def)
  then have f: "filter (\<lambda>entry. truthy (get entry ''username'')) data = data"
    by (auto simp: filter_id_conv)
  have h: "\<forall>entry \<in> set data. hashable (get entry ''username'')"
    using all by fastforce
  show ?thesis using Some f h by (simp add: load_already_scraped_def Let_def)
qed

lemma scrape_loop_well_keyed:
  assumes f: "faithful backend"
  shows "distinct (map (\<lambda>r. get r ''username'') existing) \<Longrightarrow>
         \<forall>r \<in> set existing. \<exists>s. get r ''username'' = JStr s \<and> s \<noteq> [] \<Longrightarrow>
         distinct (concat bs) \<Longrightarrow> [] \<notin> set (concat bs) \<Longrightarrow>
         \<forall>r \<in> set existing. get r ''username'' \<notin> JStr ` set (concat bs) \<Longrightarrow>
         well_keyed raw \<Longrightarrow>
         well_keyed (fst (scrape_loop backend k bs existing raw))"
proof (induction bs arbitrary: k existing raw)
  case Nil
  then show ?case by simp
next
  case (Cons batch rest)
  show ?case
  proof (cases "backend k batch")
    case CallRaised
    then show ?thesis using Cons.prems(6) by simp
  next
    case (Run status items)
    have db: "distinct batch" and dr: "distinct (concat rest)"
      and disj: "set batch \<inter> set (concat rest) = {}"
      using Cons.prems(3) by auto
    have di: "distinct (map (\<lambda>r. get r ''username'') items)"
      and sub: "\<forall>r \<in> set items. \<exists>u \<in> set batch. get r ''username'' = JStr u"
      using f Run db unfolding faithful_def by blast+
    have nb: "[] \<notin> set batch" and nr: "[] \<notin> set (concat rest)"
      using Cons.prems(4) by auto
    have ex_b: "\<forall>r \<in> set existing. get r ''username'' \<notin> JStr ` set batch"
      and ex_r: "\<forall>r \<in> set existing. get r ''username'' \<notin> JStr ` set (concat rest)"
      using Cons.prems(5) by auto
    have d1: "distinct (map (\<lambda>r. get r ''username'') (existing @ items))"
    proof -
      have "(\<lambda>r. get r ''username'') ` set existing \<inter> (\<lambda>r. get r ''username'') ` set items = {}"
        using ex_b sub by fastforce
      then show ?thesis using Cons.prems(1) di by simp
    qed
    have d2: "\<forall>r \<in> set (existing @ items). \<exists>s. get r ''username'' = JStr s \<and> s \<noteq> []"
    proof
      fix r assume "r \<in> set (existing @ items)"
      then consider "r \<in> set existing" | "r \<in> set items" by auto
      then show "\<exists>s. get r ''username'' = JStr s \<and> s \<noteq> []"
      proof cases
        case 1
        then show ?thesis using Cons.prems(2) by blast
      next
        case 2
        then obtain u where "u \<in> set batch" "get r ''username'' = JStr u" using sub by blast
        then show ?thesis using nb by auto
      qed
    qed
    have d3: "\<forall>r \<in> set (existing @ items). get r ''username'' \<notin> JStr ` set (concat rest)"
    proof
      fix r assume "r \<in> set (existing @ items)"
      then consider "r \<in> set existing" | "r \<in> set items" by auto
      then show "get r ''username'' \<notin> JStr ` set (concat rest)"
      proof cases
        case 1
        then show ?thesis using ex_r by blast
      next
        case 2
        then obtain u where "u \<in> set batch" "get r ''username'' = JStr u" using sub by blast
        then show ?thesis using disj by auto
      qed
    qed
    have d4: "well_keyed (Some (existing @ items))"
      using d1 d2 by (simp add: well_keyed_def)
    have "well_keyed (fst (scrape_loop backend (Suc k) rest (existing @ items)
                             (Some (existing @ items))))"
      using Cons.IH [OF d1 d2 dr nr d3 d4] .
    then show ?thesis using Run by (auto split: prod.splits)
  qed
qed

lemma scrape_batches_well_keyed:
  assumes wk: "well_keyed raw" and dw: "distinct W" and nw: "[] \<notin> set W"
    and f: "faithful backend"
    and r: "scrape_batches backend W b raw = Inr (raw', sub)"
  shows "well_keyed raw'"
proof -
  define D where "D = (case raw of None \<Rightarrow> {} | Some data \<Rightarrow> (\<lambda>r. get r ''username'') ` set data)"
  define ex where "ex = (case raw of None \<Rightarrow> [] | Some data \<Rightarrow> data)"
  define rem where "rem = remaining W D"
  have ld: "load_already_scraped raw = Inr D"
    using load_already_scraped_well_keyed [OF wk] by (simp add: D_def)
  have rem_eq: "rem = filter (\<lambda>u. JStr u \<notin> D) W"
    by (simp add: rem_def remaining_def remaining_loop_filter)
  have D_ex: "D = (\<lambda>r. get r ''username'') ` set ex"
    by (simp add: D_def ex_def split: option.splits)
  have e1: "distinct (map (\<lambda>r. get r ''username'') ex)"
    and e2: "\<forall>r \<in> set ex. \<exists>s. get r ''username'' = JStr s \<and> s \<noteq> []"
    using wk by (auto simp: well_keyed_def ex_def split: option.splits)
  show ?thesis
  proof (cases "rem = []")
    case True
    then show ?thesis using r ld wk by (simp add: scrape_batches_def rem_def Let_def)
  next
    case False
    from r ld False obtain bs where bs: "batches b rem = Inr bs"
      and loop: "scrape_loop backend 0 bs ex raw = (raw', sub)"
      by (auto simp: scrape_batches_def rem_def [symmetric] ex_def Let_def split: sum.splits)
    have cat: "set (concat bs) \<subseteq> set rem \<and> distinct (concat bs)"
    proof (cases "0 < b")
      case True
      then have "concat bs = rem"
        using bs concat_range3 [of "nat b" rem 0] by (simp add: batches_pos)
      then show ?thesis using rem_eq dw by simp
    next
      case False
      then have "bs = []" using bs by (auto simp: batches_def py_range_def split: if_splits)
      then show ?thesis by simp
    qed
    have c1: "distinct (concat bs)" using cat by simp
    have c2: "[] \<notin> set (concat bs)" using cat rem_eq nw by auto
    have c3: "\<forall>r \<in> set ex. get r ''username'' \<notin> JStr ` set (concat bs)"
    proof
      fix r assume r: "r \<in> set ex"
      show "get r ''username'' \<notin> JStr ` set (concat bs)"
      proof
        assume "get r ''username'' \<in> JStr ` set (concat bs)"
        then obtain u where u: "u \<in> set (concat bs)" "get r ''username'' = JStr u" by auto
        then have "u \<in> set rem" using cat by blast
        then have "JStr u \<notin> D" using rem_eq by simp
        moreover have "JStr u \<in> D" using r u(2) D_ex by force
        ultimately show False by simp
      qed
    qed
    have "well_keyed (fst (scrape_loop backend 0 bs ex raw))"
      using scrape_loop_well_keyed [OF f e1 e2 c1 c2 c3 wk] .
    then show ?thesis using loop by simp
  qed
qed

lemma scrape_restarts_well_keyed:
  assumes dw: "distinct W" and nw: "[] \<notin> set W"
  shows "well_keyed raw \<Longrightarrow> \<forall>backend \<in> set backends. faithful backend \<Longrightarrow>
         scrape_restarts backends W b raw = Inr raw' \<Longrightarrow> well_keyed raw'"
proof (induction backends arbitrary: raw)
  case Nil
  then show ?case by simp
next
  case (Cons backend backends)
  from Cons.prems(3) obtain mid sub where m: "scrape_batches backend W b raw = Inr (mid, sub)"
    and rest: "scrape_restarts backends W b mid = Inr raw'"
    by (cases "scrape_batches backend W b raw") auto
  have "well_keyed mid"
    using scrape_batches_well_keyed [OF Cons.prems(1) dw nw _ m] Cons.prems(2) by simp
  then show ?case using Cons.IH rest Cons.prems(2) by simp
qed

lemma faithful_echo: "faithful echo_backend"
  by (auto simp: faithful_def echo_backend_def profile_of_def get_def distinct_map inj_on_def)

lemma faithful_raising_at: "faithful (raising_at bad)"
  by (auto simp: faithful_def raising_at_def profile_of_def get_def distinct_map inj_on_def
      split: if_splits)

text \<open>
  C5, as the code has it. The followers file of ig\_api\_scraper.py is written from a
  dict keyed by \<^verbatim>\<open>str(ig_user_id)\<close>: in every content written, over any pages, any
  file to start from and any number of restarts, the identifiers of the records are
  pairwise different (\<^verbatim>\<open>str\<close> being the identity on strings). \<^verbatim>\<open>cmd_scrape\<close>
  appends the items of each run to the raw file and compares no identifiers; over any
  number of restarts its file stays well keyed when the file it starts from is, the
  username list has no duplicates and no empty name, and every backend is faithful.
\<close>

theorem store_never_duplicates:
  "((\<forall>s. str (JStr s) = s) \<longrightarrow>
      (\<forall>w \<in> set (api_restarts str followers_file runs).
         distinct (map (\<lambda>r. str (get r ''ig_user_id'')) w)))
   \<and> (well_keyed raw_file \<and> distinct all_usernames \<and> [] \<notin> set all_usernames
        \<and> (\<forall>backend \<in> set backends. faithful backend)
        \<and> scrape_restarts backends all_usernames batch_size raw_file = Inr raw_file' \<longrightarrow>
        well_keyed raw_file')"
proof (intro conjI impI)
  assume "\<forall>s. str (JStr s) = s"
  then show "\<forall>w \<in> set (api_restarts str followers_file runs).
         distinct (map (\<lambda>r. str (get r ''ig_user_id'')) w)"
    by (rule api_restarts_distinct)
next
  assume a: "well_keyed raw_file \<and> distinct all_usernames \<and> [] \<notin> set all_usernames
        \<and> (\<forall>backend \<in> set backends. faithful backend)
        \<and> scrape_restarts backends all_usernames batch_size raw_file = Inr raw_file'"
  then show "well_keyed raw_file'"
    using scrape_restarts_well_keyed [of all_usernames raw_file backends batch_size raw_file']
    by blast
qed

theorem store_never_duplicates_witness:
  "map (map (\<lambda>r. py_str (get r ''ig_user_id'')))
       (api_restarts py_str None [pages_example, pages_example])
     = [[''7'', ''8''], [''7'', ''8''], [''7'', ''8''], [''7'', ''8''], [''7'', ''8''], [''7'', ''8'']]
   \<and> scrape_restarts [raising_at 1, echo_backend] [''a'', ''b'', ''c'', ''d'', ''e''] 2 None
     = Inr (Some (map profile_of [''a'', ''b'', ''c'', ''d'', ''e'']))
   \<and> well_keyed (Some (map profile_of [''a'', ''b'', ''c'', ''d'', ''e'']))"
proof -
  have a: "map (map (\<lambda>r. py_str (get r ''ig_user_id'')))
       (api_restarts py_str None [pages_example, pages_example])
     = [[''7'', ''8''], [''7'', ''8''], [''7'', ''8''], [''7'', ''8''], [''7'', ''8''], [''7'', ''8'']]"
    by code_simp
  have s: "scrape_restarts [raising_at 1, echo_backend] [''a'', ''b'', ''c'', ''d'', ''e''] 2 None
     = Inr (Some (map profile_of [''a'', ''b'', ''c'', ''d'', ''e'']))"
    by code_simp
  have str: "\<forall>s. py_str (JStr s) = s" by (simp add: py_str_def)
  have h: "well_keyed None" "distinct [''a'', ''b'', ''c'', ''d'', ''e'']"
    "[] \<notin> set [''a'', ''b'', ''c'', ''d'', ''e'']"
    "\<forall>backend \<in> set [raising_at 1, echo_backend]. faithful backend"
    using faithful_echo faithful_raising_at by (simp_all add: well_keyed_def)
  show ?thesis
    using store_never_duplicates
      [of py_str None "[pages_example, pages_example]" None "[''a'', ''b'', ''c'', ''d'', ''e'']"
          "[raising_at 1, echo_backend]" 2 "Some (map profile_of [''a'', ''b'', ''c'', ''d'', ''e''])"]
      a s str h
    by simp
qed

theorem store_duplicates_counterexample:
  "map_sum id store (cmd_scrape echo_backend no_dates [''bob'', ''bob''] 1 None)
     = Inr (Some [profile_of ''bob'', profile_of ''bob''])
   \<and> \<not> well_keyed (Some [profile_of ''bob'', profile_of ''bob''])"
proof -
  have "map_sum id store (cmd_scrape echo_backend no_dates [''bob'', ''bob''] 1 None)
     = Inr (Some [profile_of ''bob'', profile_of ''bob''])"
    by code_simp
  moreover have "\<not> well_keyed (Some [profile_of ''bob'', profile_of ''bob''])"
    by (simp add: well_keyed_def)
  ultimately show ?thesis by simp
qed

end
